theory Spec2Isabelle
  imports Complex_Main "HOL-Library.Monad_Syntax"
begin

section \<open>The loopor engine (loopor.cpp)\<close>

text \<open>
  A shallow embedding of the class \<open>Looper\<close> of \<open>loopor.cpp\<close>.

  \<^item> \<open>size_t\<close> counters are natural numbers. No counter of the engine comes near
    \<open>2^64\<close>: the only subtraction that may go below zero is the fade's \<open>endIndex\<close>
    (\<open>offset + length - 1\<close>, then \<open>endIndex--\<close>), whose wrapped value is never used as an
    index, since the loop that reads it runs \<open>min length 64 \<le> length\<close> times.
  \<^item> \<open>float\<close> values are the numbers of IEEE 754 single precision, the two infinities
    and NaN; every operation rounds to the nearest number, ties to even, with gradual
    underflow (the default environment). The two zeros are one value: the engine never
    divides by a sample, so that the sign of a zero is not observed but in the sign bit
    of a stored or written zero.
  \<^item> The two sample arrays and the slot array \<open>m_dubs\<close> are stores from indices to
    values; an access at an index outside the array (undefined behaviour in C++) is the
    value \<open>None\<close> of the operation that makes it.
  \<^item> The memory returned by \<open>new float[n]\<close> is not initialised: its contents are
    parameters of the constructor.
  \<^item> The edge detection and the double click timer of \<open>MomentaryButton\<close> are left out:
    a block carries, for every button, the arguments of the callback when the button
    changed its state in that block, and nothing otherwise.
\<close>

subsection \<open>Single precision numbers\<close>

text \<open>
  The values of the type \<open>float\<close> of the compiler: the real numbers with a significand of
  24 bits and an exponent from -126 to 127 (and the subnormal numbers below them), the
  two infinities, and NaN. Every operation below returns such a number in \<open>Finite\<close>; what
  is proved of the engine holds for any real number there.
\<close>

datatype float = Finite real | PInf | NInf | NaN

text \<open>
  Rounding to the nearest number of single precision, ties to the even significand.
  \<open>float_binade x\<close> is the exponent of \<open>x\<close> counted from -126 (0 for a subnormal \<open>x\<close>),
  \<open>float_ulp x\<close> the distance of the numbers of single precision around \<open>x\<close>. A result of
  magnitude \<open>2^128\<close> or above is an infinity.
\<close>

fun float_binade_from :: "nat \<Rightarrow> real \<Rightarrow> nat" where
  "float_binade_from 0 a = 0"
| "float_binade_from (Suc n) a =
     (if 2 ^ Suc n \<le> a * 2 ^ 126 then Suc n else float_binade_from n a)"

definition float_binade :: "real \<Rightarrow> nat" where
  "float_binade x = float_binade_from 253 \<bar>x\<bar>"

definition float_ulp :: "real \<Rightarrow> real" where
  "float_ulp x = 2 ^ float_binade x / 2 ^ 149"

definition round_half_even :: "real \<Rightarrow> int" where
  "round_half_even q =
     (let f = \<lfloor>q\<rfloor> in
      if q - of_int f < 1 / 2 then f
      else if 1 / 2 < q - of_int f then f + 1
      else if even f then f else f + 1)"

definition float_round :: "real \<Rightarrow> float" where
  "float_round x =
     (let u = float_ulp x;
          y = of_int (round_half_even (x / u)) * u
      in if 2 ^ 128 \<le> \<bar>y\<bar> then (if 0 < x then PInf else NInf) else Finite y)"

text \<open>The conversion of a \<open>size_t\<close> to \<open>float\<close>.\<close>

definition float_of_nat :: "nat \<Rightarrow> float" where
  "float_of_nat n = float_round (real n)"

text \<open>The operators \<open>*\<close>, \<open>+\<close> and \<open>/\<close> on \<open>float\<close>.\<close>

fun fmul :: "float \<Rightarrow> float \<Rightarrow> float" where
  "fmul (Finite x) (Finite y) = float_round (x * y)"
| "fmul (Finite x) PInf = (if x = 0 then NaN else if 0 < x then PInf else NInf)"
| "fmul (Finite x) NInf = (if x = 0 then NaN else if 0 < x then NInf else PInf)"
| "fmul PInf (Finite y) = (if y = 0 then NaN else if 0 < y then PInf else NInf)"
| "fmul NInf (Finite y) = (if y = 0 then NaN else if 0 < y then NInf else PInf)"
| "fmul PInf PInf = PInf"
| "fmul PInf NInf = NInf"
| "fmul NInf PInf = NInf"
| "fmul NInf NInf = PInf"
| "fmul NaN b = NaN"
| "fmul a NaN = NaN"

fun fadd :: "float \<Rightarrow> float \<Rightarrow> float" where
  "fadd (Finite x) (Finite y) = float_round (x + y)"
| "fadd (Finite x) PInf = PInf"
| "fadd (Finite x) NInf = NInf"
| "fadd PInf (Finite y) = PInf"
| "fadd NInf (Finite y) = NInf"
| "fadd PInf PInf = PInf"
| "fadd NInf NInf = NInf"
| "fadd PInf NInf = NaN"
| "fadd NInf PInf = NaN"
| "fadd NaN b = NaN"
| "fadd a NaN = NaN"

text \<open>
  The engine divides by the length of a fade only, a positive number; for a divisor 0
  the result below is that of the positive zero.
\<close>

fun fdiv :: "float \<Rightarrow> float \<Rightarrow> float" where
  "fdiv (Finite x) (Finite y) =
     (if y = 0 then (if x = 0 then NaN else if 0 < x then PInf else NInf)
      else float_round (x / y))"
| "fdiv (Finite x) PInf = Finite 0"
| "fdiv (Finite x) NInf = Finite 0"
| "fdiv PInf (Finite y) = (if 0 \<le> y then PInf else NInf)"
| "fdiv NInf (Finite y) = (if 0 \<le> y then NInf else PInf)"
| "fdiv PInf PInf = NaN"
| "fdiv PInf NInf = NaN"
| "fdiv NInf PInf = NaN"
| "fdiv NInf NInf = NaN"
| "fdiv NaN b = NaN"
| "fdiv a NaN = NaN"

text \<open>\<open>fabs\<close>, and the comparisons \<open>>=\<close> and \<open><=\<close>, false when an operand is NaN.\<close>

fun fabs :: "float \<Rightarrow> float" where
  "fabs (Finite x) = Finite \<bar>x\<bar>"
| "fabs PInf = PInf"
| "fabs NInf = PInf"
| "fabs NaN = NaN"

fun fge :: "float \<Rightarrow> float \<Rightarrow> bool" where
  "fge (Finite x) (Finite y) \<longleftrightarrow> y \<le> x"
| "fge (Finite x) PInf \<longleftrightarrow> False"
| "fge (Finite x) NInf \<longleftrightarrow> True"
| "fge PInf (Finite y) \<longleftrightarrow> True"
| "fge NInf (Finite y) \<longleftrightarrow> False"
| "fge PInf PInf \<longleftrightarrow> True"
| "fge PInf NInf \<longleftrightarrow> True"
| "fge NInf PInf \<longleftrightarrow> False"
| "fge NInf NInf \<longleftrightarrow> True"
| "fge NaN b \<longleftrightarrow> False"
| "fge a NaN \<longleftrightarrow> False"

definition fle :: "float \<Rightarrow> float \<Rightarrow> bool" where
  "fle a b \<longleftrightarrow> fge b a"

fun flt :: "float \<Rightarrow> float \<Rightarrow> bool" where
  "flt (Finite x) (Finite y) \<longleftrightarrow> x < y"
| "flt (Finite x) PInf \<longleftrightarrow> True"
| "flt (Finite x) NInf \<longleftrightarrow> False"
| "flt PInf (Finite y) \<longleftrightarrow> False"
| "flt NInf (Finite y) \<longleftrightarrow> True"
| "flt PInf PInf \<longleftrightarrow> False"
| "flt PInf NInf \<longleftrightarrow> False"
| "flt NInf PInf \<longleftrightarrow> True"
| "flt NInf NInf \<longleftrightarrow> False"
| "flt NaN b \<longleftrightarrow> False"
| "flt a NaN \<longleftrightarrow> False"

text \<open>The maximum of two values as \<open>fmaxf\<close> has it: an operand that is NaN is ignored.\<close>

fun fmax :: "float \<Rightarrow> float \<Rightarrow> float" where
  "fmax NaN b = b"
| "fmax a NaN = a"
| "fmax PInf b = PInf"
| "fmax a PInf = PInf"
| "fmax NInf b = b"
| "fmax a NInf = a"
| "fmax (Finite x) (Finite y) = Finite (max x y)"

text \<open>
  \<open>powf b y\<close> for a finite base \<open>b\<close> above 1 (the engine calls it with the base 10), taken
  as correctly rounded.
\<close>

fun powf :: "real \<Rightarrow> float \<Rightarrow> float" where
  "powf b (Finite y) = float_round (b powr y)"
| "powf b PInf = PInf"
| "powf b NInf = Finite 0"
| "powf b NaN = NaN"

subsection \<open>Configuration constants\<close>

definition NR_OF_DUBS :: nat where
  "NR_OF_DUBS = 128"

definition STORAGE_MEMORY_SECONDS :: nat where
  "STORAGE_MEMORY_SECONDS = 360"

definition NR_OF_BLEND_SAMPLES :: nat where
  "NR_OF_BLEND_SAMPLES = 64"

definition dbToFloat :: "float \<Rightarrow> float" where
  "dbToFloat db =
     (if fle db (Finite (- 90)) then Finite 0
      else powf 10 (fmul db (float_round 0.05)))"

subsection \<open>Data\<close>

datatype State =
    LOOPER_STATE_INACTIVE
  | LOOPER_STATE_WAITING_FOR_THRESHOLD
  | LOOPER_STATE_RECORDING
  | LOOPER_STATE_PLAYING

record Dub =
  m_storageOffset :: nat
  m_length :: nat
  m_startIndex :: nat

record Looper =
  m_state :: State
  m_threshold :: float
  m_dryAmount :: float
  m_currentLoopIndex :: nat
  m_loopLength :: nat
  m_storageSize :: nat
  m_nrOfUsedSamples :: nat
  m_storage1 :: "nat \<Rightarrow> float"
  m_storage2 :: "nat \<Rightarrow> float"
  m_nrOfDubs :: nat
  m_maxUsedDubs :: nat
  m_dubs :: "nat \<Rightarrow> Dub"

text \<open>
  The constructor: \<open>m_storageSize = sampleRate * STORAGE_MEMORY_SECONDS * 2\<close>, a
  \<open>double\<close> converted to \<open>size_t\<close> (truncated); every other member has its default
  initialiser. The product is taken as exact, as it is in double precision for the
  integral sample rates of audio hardware; for a negative rate, whose conversion is
  undefined, the size is 0 here.
\<close>

definition Looper_new :: "real \<Rightarrow> (nat \<Rightarrow> float) \<Rightarrow> (nat \<Rightarrow> float) \<Rightarrow> Looper" where
  "Looper_new sampleRate mem1 mem2 =
     \<lparr> m_state = LOOPER_STATE_INACTIVE,
       m_threshold = Finite 0,
       m_dryAmount = Finite 1,
       m_currentLoopIndex = 0,
       m_loopLength = 0,
       m_storageSize = nat \<lfloor>sampleRate * real STORAGE_MEMORY_SECONDS * 2\<rfloor>,
       m_nrOfUsedSamples = 0,
       m_storage1 = mem1,
       m_storage2 = mem2,
       m_nrOfDubs = 0,
       m_maxUsedDubs = 0,
       m_dubs = (\<lambda>_. \<lparr> m_storageOffset = 0, m_length = 0, m_startIndex = 0 \<rparr>) \<rparr>"

subsection \<open>Commands\<close>

definition reset :: "Looper \<Rightarrow> Looper" where
  "reset l =
     l\<lparr> m_nrOfDubs := 0,
        m_maxUsedDubs := 0,
        m_nrOfUsedSamples := 0,
        m_state := LOOPER_STATE_INACTIVE,
        m_currentLoopIndex := 0,
        m_loopLength := 0 \<rparr>"

text \<open>\<open>startRecording\<close> reads no array outside its guard \<open>m_nrOfDubs < NR_OF_DUBS\<close>.\<close>

definition startRecording :: "Looper \<Rightarrow> Looper" where
  "startRecording l =
     (if m_nrOfDubs l \<ge> NR_OF_DUBS then l
      else if m_nrOfUsedSamples l \<ge> m_storageSize l then l
      else l\<lparr> m_dubs := (m_dubs l)(m_nrOfDubs l :=
                  (m_dubs l (m_nrOfDubs l))
                    \<lparr> m_storageOffset := m_nrOfUsedSamples l, m_length := 0 \<rparr>),
              m_state := LOOPER_STATE_WAITING_FOR_THRESHOLD \<rparr>)"

text \<open>
  The fade loop of \<open>finishRecording\<close>: \<open>blend k s len startIndex endIndex\<close> runs the
  \<open>k\<close> iterations that are left when the loop counter is \<open>s\<close>.
\<close>

fun blend :: "nat \<Rightarrow> nat \<Rightarrow> nat \<Rightarrow> nat \<Rightarrow> nat \<Rightarrow> Looper \<Rightarrow> Looper option" where
  "blend 0 s len startIndex endIndex l = Some l"
| "blend (Suc k) s len startIndex endIndex l =
     (if startIndex < m_storageSize l \<and> endIndex < m_storageSize l then
        (let factor = fdiv (float_of_nat s) (float_of_nat len);
             a1 = (m_storage1 l)(startIndex := fmul (m_storage1 l startIndex) factor);
             a2 = (m_storage2 l)(startIndex := fmul (m_storage2 l startIndex) factor);
             b1 = a1(endIndex := fmul (a1 endIndex) factor);
             b2 = a2(endIndex := fmul (a2 endIndex) factor)
         in blend k (s + 1) len (startIndex + 1) (endIndex - 1)
              (l\<lparr> m_storage1 := b1, m_storage2 := b2 \<rparr>))
      else None)"

definition finishRecording :: "Looper \<Rightarrow> Looper option" where
  "finishRecording l =
     (if m_state l = LOOPER_STATE_WAITING_FOR_THRESHOLD then
        Some (l\<lparr> m_state := (if m_nrOfDubs l = 0 then LOOPER_STATE_INACTIVE
                               else LOOPER_STATE_PLAYING) \<rparr>)
      else if m_nrOfDubs l < NR_OF_DUBS then
        (let dub = m_dubs l (m_nrOfDubs l);
             l1 = l\<lparr> m_state := LOOPER_STATE_PLAYING \<rparr>;
             l2 = (if m_nrOfDubs l1 = 0
                   then l1\<lparr> m_loopLength := m_length dub, m_currentLoopIndex := 0 \<rparr>
                   else l1);
             len = (if m_length dub > NR_OF_BLEND_SAMPLES then NR_OF_BLEND_SAMPLES
                    else m_length dub)
         in do {
              l3 \<leftarrow> blend len 0 len (m_storageOffset dub)
                      (m_storageOffset dub + m_length dub - 1) l2;
              Some (l3\<lparr> m_nrOfDubs := m_nrOfDubs l3 + 1,
                        m_maxUsedDubs := m_nrOfDubs l3 + 1 \<rparr>)
            })
      else None)"

definition undo :: "Looper \<Rightarrow> Looper option" where
  "undo l =
     do {
       l1 \<leftarrow> (if m_state l = LOOPER_STATE_RECORDING then finishRecording l else Some l);
       if m_nrOfDubs l1 = 0 then Some l1
       else if m_nrOfDubs l1 - 1 < NR_OF_DUBS then
         (let n = m_nrOfDubs l1 - 1;
              l2 = l1\<lparr> m_nrOfDubs := n,
                       m_nrOfUsedSamples := m_storageOffset (m_dubs l1 n) \<rparr>
          in Some (if n = 0 then l2\<lparr> m_loopLength := 0, m_currentLoopIndex := 0 \<rparr>
                   else l2))
       else None
     }"

definition redo :: "Looper \<Rightarrow> Looper option" where
  "redo l =
     (if m_state l = LOOPER_STATE_RECORDING then Some l
      else if m_nrOfDubs l = m_maxUsedDubs l then Some l
      else if m_nrOfDubs l < NR_OF_DUBS then
        (let dub = m_dubs l (m_nrOfDubs l);
             l1 = l\<lparr> m_nrOfUsedSamples := m_storageOffset dub + m_length dub \<rparr>;
             l2 = (if m_nrOfDubs l1 = 0
                   then l1\<lparr> m_currentLoopIndex := 0, m_loopLength := m_length dub \<rparr>
                   else l1)
         in Some (l2\<lparr> m_nrOfDubs := m_nrOfDubs l2 + 1 \<rparr>))
      else None)"

subsection \<open>The button callbacks of \<open>connectPort\<close>\<close>

definition is_recording :: "Looper \<Rightarrow> bool" where
  "is_recording l \<longleftrightarrow>
     m_state l = LOOPER_STATE_RECORDING \<or> m_state l = LOOPER_STATE_WAITING_FOR_THRESHOLD"

definition activateCallback :: "bool \<Rightarrow> bool \<Rightarrow> Looper \<Rightarrow> Looper option" where
  "activateCallback pressed doubleClick l =
     (if \<not> pressed then Some l
      else if doubleClick then Some (reset l)
      else if is_recording l then finishRecording l
      else Some (startRecording l))"

definition resetCallback :: "bool \<Rightarrow> bool \<Rightarrow> Looper \<Rightarrow> Looper option" where
  "resetCallback pressed doubleClick l =
     (if \<not> pressed then Some l
      else if doubleClick then Some (reset l)
      else if is_recording l then finishRecording l
      else undo l)"

definition undoCallback :: "bool \<Rightarrow> bool \<Rightarrow> Looper \<Rightarrow> Looper option" where
  "undoCallback pressed doubleClick l = (if \<not> pressed then Some l else undo l)"

definition redoCallback :: "bool \<Rightarrow> bool \<Rightarrow> Looper \<Rightarrow> Looper option" where
  "redoCallback pressed doubleClick l = (if \<not> pressed then Some l else redo l)"

definition dubCallback :: "bool \<Rightarrow> bool \<Rightarrow> Looper \<Rightarrow> Looper option" where
  "dubCallback pressed doubleClick l =
     (if \<not> pressed then Some l
      else if doubleClick then Some (reset l)
      else do {
        l1 \<leftarrow> (if is_recording l then finishRecording l else Some l);
        Some (startRecording l1)
      })"

subsection \<open>Per-block processing\<close>

text \<open>
  What the host hands to one call of \<open>run\<close>: the two parameter ports, for every button
  the callback arguments \<open>(pressed, doubleClick)\<close> if the button changed its state, and
  the two input buffers, one pair per sample (\<open>nrOfSamples\<close> is their length).
\<close>

record Block =
  thresholdParameter :: float
  dryAmountParameter :: float
  activateButton :: "(bool \<times> bool) option"
  resetButton :: "(bool \<times> bool) option"
  undoButton :: "(bool \<times> bool) option"
  redoButton :: "(bool \<times> bool) option"
  dubButton :: "(bool \<times> bool) option"
  inputs :: "(float \<times> float) list"

definition button :: "(bool \<Rightarrow> bool \<Rightarrow> Looper \<Rightarrow> Looper option) \<Rightarrow> (bool \<times> bool) option
    \<Rightarrow> Looper \<Rightarrow> Looper option" where
  "button callback ev l =
     (case ev of None \<Rightarrow> Some l | Some (pressed, doubleClick) \<Rightarrow> callback pressed doubleClick l)"

definition updateParameters :: "Block \<Rightarrow> Looper \<Rightarrow> Looper option" where
  "updateParameters b l =
     do {
       l1 \<leftarrow> button activateCallback (activateButton b)
               (l\<lparr> m_threshold := dbToFloat (thresholdParameter b),
                    m_dryAmount := dryAmountParameter b \<rparr>);
       l2 \<leftarrow> button resetCallback (resetButton b) l1;
       l3 \<leftarrow> button undoCallback (undoButton b) l2;
       l4 \<leftarrow> button redoCallback (redoButton b) l3;
       button dubCallback (dubButton b) l4
     }"

text \<open>The threshold check at the head of the sample loop.\<close>

definition checkThreshold :: "float \<times> float \<Rightarrow> Looper \<Rightarrow> Looper option" where
  "checkThreshold x l =
     (if m_state l = LOOPER_STATE_WAITING_FOR_THRESHOLD
         \<and> (fge (fabs (fst x)) (m_threshold l) \<or> fge (fabs (snd x)) (m_threshold l)) then
        (if m_nrOfDubs l < NR_OF_DUBS then
           Some (l\<lparr> m_dubs := (m_dubs l)(m_nrOfDubs l :=
                       (m_dubs l (m_nrOfDubs l))\<lparr> m_startIndex := m_currentLoopIndex l \<rparr>),
                    m_state := LOOPER_STATE_RECORDING \<rparr>)
         else None)
      else Some l)"

text \<open>Recording one sample pair.\<close>

definition capture :: "float \<times> float \<Rightarrow> Looper \<Rightarrow> Looper option" where
  "capture x l =
     (if m_state l = LOOPER_STATE_RECORDING then
        (if m_nrOfUsedSamples l < m_storageSize l \<and> m_nrOfDubs l < NR_OF_DUBS then
           Some (l\<lparr> m_storage1 := (m_storage1 l)(m_nrOfUsedSamples l := fst x),
                    m_storage2 := (m_storage2 l)(m_nrOfUsedSamples l := snd x),
                    m_nrOfUsedSamples := m_nrOfUsedSamples l + 1,
                    m_dubs := (m_dubs l)(m_nrOfDubs l :=
                       (m_dubs l (m_nrOfDubs l))
                         \<lparr> m_length := m_length (m_dubs l (m_nrOfDubs l)) + 1 \<rparr>) \<rparr>)
         else None)
      else Some l)"

text \<open>
  The playback loop over the active dubs: \<open>playback ts l out\<close> adds to \<open>out\<close> the
  contribution of the slots \<open>ts\<close>, in this order.
\<close>

fun playback :: "nat list \<Rightarrow> Looper \<Rightarrow> float \<times> float \<Rightarrow> (float \<times> float) option" where
  "playback [] l out = Some out"
| "playback (t # ts) l out =
     (if t < NR_OF_DUBS then
        (let dub = m_dubs l t in
         if m_currentLoopIndex l < m_startIndex dub then playback ts l out
         else if m_currentLoopIndex l \<ge> m_startIndex dub + m_length dub then playback ts l out
         else
           (let index = m_storageOffset dub + (m_currentLoopIndex l - m_startIndex dub) in
            if index < m_storageSize l
            then playback ts l (fadd (fst out) (m_storage1 l index),
                                fadd (snd out) (m_storage2 l index))
            else None))
      else None)"

text \<open>The end of the loop body: advance the loop index, wrap, stop or chain the take.\<close>

definition advance :: "Looper \<Rightarrow> Looper option" where
  "advance l =
     (let l1 = (if m_nrOfDubs l > 0 then l\<lparr> m_currentLoopIndex := m_currentLoopIndex l + 1 \<rparr>
                else l)
      in if m_currentLoopIndex l1 > m_loopLength l1
            \<or> m_nrOfUsedSamples l1 \<ge> m_storageSize l1 then
           (let l2 = l1\<lparr> m_currentLoopIndex := 0 \<rparr> in
            if m_state l2 = LOOPER_STATE_RECORDING then
              do {
                l3 \<leftarrow> finishRecording l2;
                Some (if m_nrOfDubs l3 > 1 then startRecording l3 else l3)
              }
            else Some l2)
         else Some l1)"

definition run_sample :: "float \<times> float \<Rightarrow> Looper \<Rightarrow> (Looper \<times> float \<times> float) option" where
  "run_sample x l =
     do {
       l1 \<leftarrow> checkThreshold x l;
       l2 \<leftarrow> capture x l1;
       out \<leftarrow> playback [0 ..< m_nrOfDubs l2] l2
                (fmul (m_dryAmount l2) (fst x), fmul (m_dryAmount l2) (snd x));
       l3 \<leftarrow> advance l2;
       Some (l3, out)
     }"

fun run_samples :: "(float \<times> float) list \<Rightarrow> Looper
    \<Rightarrow> (Looper \<times> (float \<times> float) list) option" where
  "run_samples [] l = Some (l, [])"
| "run_samples (x # xs) l =
     do {
       (l1, out) \<leftarrow> run_sample x l;
       (l2, outs) \<leftarrow> run_samples xs l1;
       Some (l2, out # outs)
     }"

definition run :: "Block \<Rightarrow> Looper \<Rightarrow> (Looper \<times> (float \<times> float) list) option" where
  "run b l =
     do {
       l1 \<leftarrow> updateParameters b l;
       if m_state l1 = LOOPER_STATE_INACTIVE
       then Some (l1, map (\<lambda>x. (fmul (m_dryAmount l1) (fst x), fmul (m_dryAmount l1) (snd x)))
                        (inputs b))
       else run_samples (inputs b) l1
     }"

text \<open>The states the engine can be in between two calls of \<open>run\<close>.\<close>

inductive reachable :: "Looper \<Rightarrow> bool" where
  reachable_new: "reachable (Looper_new sampleRate mem1 mem2)"
| reachable_run: "reachable l \<Longrightarrow> run b l = Some (l', outs) \<Longrightarrow> reachable l'"

subsection \<open>Driving the engine\<close>

text \<open>
  The host calls \<open>run\<close> block after block; \<open>run_blocks\<close> keeps the engine and drops the
  output. \<open>block db dry ins\<close> is a block in which no button changes, \<open>press\<close> a single
  press of a button, \<open>silence\<close> a memory of zeros.
\<close>

fun run_blocks :: "Block list \<Rightarrow> Looper \<Rightarrow> Looper option" where
  "run_blocks [] l = Some l"
| "run_blocks (b # bs) l =
     (case run b l of None \<Rightarrow> None | Some (l', outs) \<Rightarrow> run_blocks bs l')"

definition silence :: "nat \<Rightarrow> float" where
  "silence = (\<lambda>_. Finite 0)"

definition block :: "float \<Rightarrow> float \<Rightarrow> (float \<times> float) list \<Rightarrow> Block" where
  "block db dry ins =
     \<lparr> thresholdParameter = db, dryAmountParameter = dry,
       activateButton = None, resetButton = None, undoButton = None, redoButton = None,
       dubButton = None, inputs = ins \<rparr>"

definition press :: "(bool \<times> bool) option" where
  "press = Some (True, False)"

subsection \<open>Scenarios\<close>

text \<open>
  A first take of two samples, recorded with the threshold at its floor and stopped at
  the start of the second block, which then plays two samples.
\<close>

definition two_sample_loop :: "Block list" where
  "two_sample_loop =
     [(block (Finite (- 90)) (Finite 0) [(Finite 1, Finite 1), (Finite 1, Finite 1)])\<lparr> activateButton := press \<rparr>,
      (block (Finite (- 90)) (Finite 0) [(Finite 1, Finite 1), (Finite 1, Finite 1)])\<lparr> activateButton := press \<rparr>]"

text \<open>
  A first take of \<open>n\<close> samples of value 1, and the press of Activate that stops it.
\<close>

definition ones_take :: "nat \<Rightarrow> Block list" where
  "ones_take n =
     [(block (Finite (- 90)) (Finite 0) (replicate n (Finite 1, Finite 1)))\<lparr> activateButton := press \<rparr>,
      (block (Finite (- 90)) (Finite 0) [])\<lparr> activateButton := press \<rparr>]"

text \<open>
  A take of one sample is recorded (threshold 0 dB, input at full scale) and stopped,
  then undone; a new take is started and waits for the threshold over a silent input.
\<close>

definition undo_then_start :: "Block list" where
  "undo_then_start =
     [(block (Finite 0) (Finite 1) [(Finite 1, Finite 1)])\<lparr> activateButton := press \<rparr>,
      (block (Finite 0) (Finite 1) [(Finite 0, Finite 0)])\<lparr> activateButton := press \<rparr>,
      (block (Finite 0) (Finite 1) [(Finite 0, Finite 0)])\<lparr> undoButton := press \<rparr>,
      (block (Finite 0) (Finite 1) [(Finite 0, Finite 0)])\<lparr> activateButton := press \<rparr>]"

text \<open>
  A first take of two samples is recorded (threshold 0 dB) and stopped; a second take is
  started over a silent input and Undo is pressed while it waits for the threshold,
  in a block with one loud sample; the take is stopped three silent samples later.
\<close>

definition undo_while_waiting :: "Block list" where
  "undo_while_waiting =
     [(block (Finite 0) (Finite 0) [(Finite 1, Finite 1), (Finite 1, Finite 1)])\<lparr> activateButton := press \<rparr>,
      (block (Finite 0) (Finite 0) [(Finite 0, Finite 0), (Finite 0, Finite 0), (Finite 0, Finite 0)])\<lparr> activateButton := press \<rparr>,
      (block (Finite 0) (Finite 0) [(Finite 0, Finite 0), (Finite 0, Finite 0), (Finite 0, Finite 0)])\<lparr> activateButton := press \<rparr>,
      (block (Finite 0) (Finite 0) [(Finite 1, Finite 1)])\<lparr> undoButton := press \<rparr>,
      (block (Finite 0) (Finite 0) [(Finite 0, Finite 0), (Finite 0, Finite 0), (Finite 0, Finite 0), (Finite 0, Finite 0)])\<lparr> activateButton := press \<rparr>]"

text \<open>
  A press of Undo, and a press of Redo in the block after it.
\<close>

definition undo_then_redo :: "Block list" where
  "undo_then_redo =
     [(block (Finite 0) (Finite 0) [(Finite 0, Finite 0)])\<lparr> undoButton := press \<rparr>,
      (block (Finite 0) (Finite 0) [(Finite 0, Finite 0), (Finite 0, Finite 0), (Finite 0, Finite 0), (Finite 0, Finite 0)])\<lparr> redoButton := press \<rparr>]"

text \<open>
  A first take of one sample, then a press of Dub: with a loop of one sample the engine
  finishes a take and starts the next one every second sample, until no slot is left.
\<close>

definition overdub_until_full :: "Block list" where
  "overdub_until_full =
     [(block (Finite (- 90)) (Finite 0) [(Finite 1, Finite 1)])\<lparr> activateButton := press \<rparr>,
      (block (Finite (- 90)) (Finite 0) (replicate 254 (Finite 1, Finite 1)))\<lparr> dubButton := press \<rparr>]"

text \<open>
  After that, a press of Undo in a block without samples.
\<close>

definition fill_ledger :: "Block list" where
  "fill_ledger = overdub_until_full @ [(block (Finite (- 90)) (Finite 0) [])\<lparr> undoButton := press \<rparr>]"

text \<open>
  A block in which both Activate and Redo are pressed, with one sample.
\<close>

definition start_and_redo :: Block where
  "start_and_redo =
     (block (Finite (- 90)) (Finite 0) [(Finite 1, Finite 1)])\<lparr> activateButton := press, redoButton := press \<rparr>"

text \<open>
  A first take of two samples is recorded (threshold 0 dB) and stopped, and a second take
  is started over a silent input: it waits for the threshold. Then Undo is pressed.
\<close>

definition waiting_take :: "Block list" where
  "waiting_take =
     [(block (Finite 0) (Finite 0) [(Finite 1, Finite 1), (Finite 1, Finite 1)])
        \<lparr> activateButton := press \<rparr>,
      (block (Finite 0) (Finite 0) [(Finite 0, Finite 0)])\<lparr> activateButton := press \<rparr>,
      (block (Finite 0) (Finite 0) [(Finite 0, Finite 0)])\<lparr> activateButton := press \<rparr>]"

definition undo_pressed :: Block where
  "undo_pressed = (block (Finite 0) (Finite 0) [(Finite 0, Finite 0)])\<lparr> undoButton := press \<rparr>"

text \<open>
  A first take of two samples is recorded (threshold 0 dB) and stopped. Then the take is
  undone, a new take is started and given up while it waits for the threshold, and Redo
  is pressed.
\<close>

definition first_loop :: "Block list" where
  "first_loop =
     [(block (Finite 0) (Finite 0) [(Finite 1, Finite 1), (Finite 1, Finite 1)])
        \<lparr> activateButton := press \<rparr>,
      (block (Finite 0) (Finite 0) [(Finite 0, Finite 0)])\<lparr> activateButton := press \<rparr>]"

definition abandon_and_redo :: "Block list" where
  "abandon_and_redo =
     [(block (Finite 0) (Finite 0) [(Finite 0, Finite 0)])\<lparr> undoButton := press \<rparr>,
      (block (Finite 0) (Finite 0) [(Finite 0, Finite 0)])\<lparr> activateButton := press \<rparr>,
      (block (Finite 0) (Finite 0) [(Finite 0, Finite 0)])\<lparr> activateButton := press \<rparr>,
      (block (Finite 0) (Finite 0) [(Finite 0, Finite 0)])\<lparr> redoButton := press \<rparr>]"

text \<open>
  A press of Activate with the threshold at -90 dB, in a block whose only sample is NaN
  on both channels.
\<close>

definition nan_at_floor :: Block where
  "nan_at_floor = (block (Finite (- 90)) (Finite 0) [(NaN, NaN)])\<lparr> activateButton := press \<rparr>"


text \<open>
  After a first take of 719 samples, in an arena of 720: Activate and Undo are pressed
  in one block with two samples, and Activate is pressed again.
\<close>

definition overlong_take :: "Block list" where
  "overlong_take =
     [(block (Finite (- 90)) (Finite 0) [(Finite 1, Finite 1), (Finite 1, Finite 1)])
        \<lparr> activateButton := press, undoButton := press \<rparr>,
      (block (Finite (- 90)) (Finite 0) [])\<lparr> activateButton := press \<rparr>]"

subsection \<open>Invariants and closed forms\<close>

text \<open>
  The ledger of slots: no more active dubs than redoable ones, and the loop length is
  the length of slot 0 while a dub is active.
\<close>

definition ledger_inv :: "Looper \<Rightarrow> bool" where
  "ledger_inv l \<longleftrightarrow>
     m_nrOfDubs l \<le> m_maxUsedDubs l
     \<and> (0 < m_nrOfDubs l \<longrightarrow> m_loopLength l = m_length (m_dubs l 0))"

text \<open>
  The loop position is at most the loop length.
\<close>

definition index_inv :: "Looper \<Rightarrow> bool" where
  "index_inv l \<longleftrightarrow> m_currentLoopIndex l \<le> m_loopLength l"

text \<open>
  The slot a take is recorded into.
\<close>

definition current_dub :: "Looper \<Rightarrow> Dub" where
  "current_dub l = m_dubs l (m_nrOfDubs l)"

text \<open>
  Every active dub lies in the used part of the arena.
\<close>

definition dubs_in_arena :: "Looper \<Rightarrow> bool" where
  "dubs_in_arena l \<longleftrightarrow>
     (\<forall>t<m_nrOfDubs l.
        m_storageOffset (m_dubs l t) + m_length (m_dubs l t) \<le> m_nrOfUsedSamples l)"

text \<open>
  The engine between two chained overdubs over a loop of one sample: \<open>k\<close> dubs, the
  first of one sample and the others of two.
\<close>

definition overdubbing :: "nat \<Rightarrow> Looper \<Rightarrow> bool" where
  "overdubbing k l \<longleftrightarrow>
     m_nrOfDubs l = k \<and> m_maxUsedDubs l = k \<and> m_currentLoopIndex l = 0
     \<and> m_loopLength l = 1 \<and> m_threshold l = Finite 0 \<and> m_nrOfUsedSamples l + 1 = 2 * k
     \<and> dubs_in_arena l"

text \<open>
  A take has been started and waits for the threshold; its slot is empty.
\<close>

definition slot_reserved :: "Looper \<Rightarrow> bool" where
  "slot_reserved l \<longleftrightarrow>
     m_state l = LOOPER_STATE_WAITING_FOR_THRESHOLD
     \<and> m_storageOffset (m_dubs l (m_nrOfDubs l)) = m_nrOfUsedSamples l
     \<and> m_length (m_dubs l (m_nrOfDubs l)) = 0"

text \<open>
  The condition of the threshold check on a pair of input samples, the peak of a pair in
  the words of the specification, and a pair of which both samples are NaN.
\<close>

definition meets_threshold :: "float \<times> float \<Rightarrow> float \<Rightarrow> bool" where
  "meets_threshold x t \<longleftrightarrow> fge (fabs (fst x)) t \<or> fge (fabs (snd x)) t"

definition spec_peak :: "float \<times> float \<Rightarrow> float" where
  "spec_peak x = fmax (fabs (fst x)) (fabs (snd x))"

definition nan_pair :: "float \<times> float \<Rightarrow> bool" where
  "nan_pair x \<longleftrightarrow> fst x = NaN \<and> snd x = NaN"

text \<open>
  The array \<open>f\<close> after the values \<open>vs\<close> have been written from index \<open>u\<close> on.
\<close>

fun store_samples :: "(nat \<Rightarrow> float) \<Rightarrow> nat \<Rightarrow> float list \<Rightarrow> nat \<Rightarrow> float" where
  "store_samples f u [] = f"
| "store_samples f u (v # vs) = store_samples (f(u := v)) (u + 1) vs"

text \<open>
  The factor of round \<open>s\<close> of a fade over \<open>len\<close> samples, and whether a value is a number.
\<close>

definition fade_factor :: "nat \<Rightarrow> nat \<Rightarrow> float" where
  "fade_factor s len = fdiv (float_of_nat s) (float_of_nat len)"

fun isfinite :: "float \<Rightarrow> bool" where
  "isfinite (Finite x) \<longleftrightarrow> True"
| "isfinite PInf \<longleftrightarrow> False"
| "isfinite NInf \<longleftrightarrow> False"
| "isfinite NaN \<longleftrightarrow> False"

text \<open>
  What \<open>k\<close> rounds of the fade loop, started at round \<open>s\<close> with the indices \<open>si\<close> and
  \<open>ei\<close>, do to the value \<open>x\<close> of the sample at index \<open>i\<close>: round by round
  (\<open>fade_sample\<close>), and in closed form (\<open>fade_closed\<close>): the sample is multiplied by the
  factor of the round in which the ramp from the start reaches it and by that of the
  round in which the ramp from the end does, the earlier round first.
\<close>

fun fade_sample :: "nat \<Rightarrow> nat \<Rightarrow> nat \<Rightarrow> nat \<Rightarrow> nat \<Rightarrow> nat \<Rightarrow> float \<Rightarrow> float" where
  "fade_sample 0 s len si ei i x = x"
| "fade_sample (Suc k) s len si ei i x =
     fade_sample k (s + 1) len (si + 1) (ei - 1) i
       (let x1 = (if i = si then fmul x (fade_factor s len) else x)
        in if i = ei then fmul x1 (fade_factor s len) else x1)"

definition fade_closed :: "nat \<Rightarrow> nat \<Rightarrow> nat \<Rightarrow> nat \<Rightarrow> nat \<Rightarrow> nat \<Rightarrow> float \<Rightarrow> float" where
  "fade_closed k s len si ei i x =
     (let up = (si \<le> i \<and> i < si + k);
          down = (i \<le> ei \<and> ei < i + k);
          su = s + (i - si);
          sd = s + (ei - i)
      in if up \<and> down then
           (if su \<le> sd then fmul (fmul x (fade_factor su len)) (fade_factor sd len)
            else fmul (fmul x (fade_factor sd len)) (fade_factor su len))
         else if up then fmul x (fade_factor su len)
         else if down then fmul x (fade_factor sd len)
         else x)"

section \<open>Properties\<close>

subsection \<open>Rounding\<close>

lemma binade_from_le: "float_binade_from n a \<le> n"
  by (induction n) auto

lemma binade_from_lower:
  "0 < float_binade_from n a \<Longrightarrow> 2 ^ float_binade_from n a \<le> a * 2 ^ 126"
  by (induction n) (auto split: if_splits)

lemma binade_from_eq:
  assumes "k \<le> n" "a * 2 ^ 126 < 2 ^ Suc k" "k = 0 \<or> 2 ^ k \<le> a * 2 ^ 126"
  shows "float_binade_from n a = k"
  using assms
proof (induction n)
  case 0
  then show ?case by simp
next
  case (Suc n)
  show ?case
  proof (cases "k = Suc n")
    case True
    with Suc.prems show ?thesis by auto
  next
    case False
    with Suc.prems have kn: "k \<le> n" by simp
    have "(2 :: real) ^ Suc k \<le> 2 ^ Suc n"
      using kn by (intro power_increasing) auto
    with Suc.prems(2) have "\<not> 2 ^ Suc n \<le> a * 2 ^ 126" by linarith
    with Suc.IH[OF kn Suc.prems(2,3)] show ?thesis by simp
  qed
qed

lemma float_binade_eq:
  assumes "k \<le> 253" "\<bar>x\<bar> * 2 ^ 126 < 2 ^ Suc k" "k = 0 \<or> 2 ^ k \<le> \<bar>x\<bar> * 2 ^ 126"
  shows "float_binade x = k"
  unfolding float_binade_def using assms by (rule binade_from_eq)

lemma round_half_even_of_int: "round_half_even (of_int m) = m"
  by (simp add: round_half_even_def)

lemma float_round_0: "float_round 0 = Finite 0"
  by (simp add: float_round_def round_half_even_def)

text \<open>A value with a significand of 24 bits and an exponent in range is not rounded.\<close>

lemma float_round_exact:
  assumes m: "\<bar>m\<bar> < 2 ^ 24" and j: "j \<le> 253"
    and x: "x = of_int m * 2 ^ j / 2 ^ 149"
  shows "float_round x = Finite x"
proof -
  define k where "k = float_binade x"
  have ax: "\<bar>x\<bar> = real_of_int \<bar>m\<bar> * 2 ^ j / 2 ^ 149"
    by (simp add: x abs_mult)
  have am: "real_of_int \<bar>m\<bar> < 2 ^ 24"
    using m by (metis of_int_less_numeral_power_cancel_iff)
  have kj: "k \<le> j"
  proof (rule ccontr)
    assume "\<not> k \<le> j"
    then have lt: "j + 1 \<le> k" by simp
    then have "0 < k" by simp
    then have "2 ^ k \<le> \<bar>x\<bar> * 2 ^ 126"
      unfolding k_def float_binade_def by (rule binade_from_lower)
    moreover have "\<bar>x\<bar> * 2 ^ 126 = real_of_int \<bar>m\<bar> * 2 ^ j / 2 ^ 23"
      unfolding ax by simp
    moreover have "real_of_int \<bar>m\<bar> * 2 ^ j / 2 ^ 23 < 2 ^ 24 * 2 ^ j / 2 ^ 23"
      using am by (simp add: divide_strict_right_mono)
    moreover have "(2 :: real) ^ 24 * 2 ^ j / 2 ^ 23 = 2 ^ (j + 1)" by simp
    moreover have "(2 :: real) ^ (j + 1) \<le> 2 ^ k"
      using lt by (intro power_increasing) auto
    ultimately show False by linarith
  qed
  define B :: real where "B = 2 ^ 149"
  have B: "0 < B" by (simp add: B_def)
  have q: "x / float_ulp x = of_int (m * 2 ^ (j - k))"
  proof -
    have "(2 :: real) ^ j = 2 ^ (j - k) * 2 ^ k"
      using kj by (simp flip: power_add)
    then have "x = real_of_int m * 2 ^ (j - k) * 2 ^ k / B"
      by (simp add: x B_def)
    moreover have "float_ulp x = 2 ^ k / B"
      by (simp add: float_ulp_def k_def B_def)
    ultimately have "x / float_ulp x = (real_of_int m * 2 ^ (j - k) * 2 ^ k / B) / (2 ^ k / B)"
      by simp
    also have "\<dots> = real_of_int m * 2 ^ (j - k)"
      using B by simp
    finally show ?thesis by simp
  qed
  have y: "of_int (round_half_even (x / float_ulp x)) * float_ulp x = x"
  proof -
    have "real_of_int (m * 2 ^ (j - k)) * float_ulp x = x / float_ulp x * float_ulp x"
      unfolding q ..
    also have "\<dots> = x" by (simp add: float_ulp_def)
    finally show ?thesis unfolding q round_half_even_of_int .
  qed
  have "real_of_int \<bar>m\<bar> * 2 ^ j < 2 ^ 24 * 2 ^ 253"
  proof -
    have "real_of_int \<bar>m\<bar> * 2 ^ j \<le> real_of_int \<bar>m\<bar> * 2 ^ 253"
      using j by (intro mult_left_mono power_increasing) auto
    also have "\<dots> < 2 ^ 24 * 2 ^ 253" using am by simp
    finally show ?thesis .
  qed
  then have "\<bar>x\<bar> < 2 ^ 128"
    unfolding ax by (simp add: divide_less_eq)
  with y show ?thesis
    by (simp add: float_round_def Let_def)
qed

lemma float_round_nat: "n < 2 ^ 24 \<Longrightarrow> float_round (real n) = Finite (real n)"
  using float_round_exact[of "int n" 149 "real n"] by simp

lemma float_round_dyadic:
  assumes n: "n < 2 ^ 24" and p: "p \<le> 149"
  shows "float_round (real n / 2 ^ p) = Finite (real n / 2 ^ p)"
proof -
  define B :: real where "B = 2 ^ 149"
  have "B = 2 ^ (149 - p) * 2 ^ p"
    unfolding B_def using p by (simp only: flip: power_add) simp
  moreover have "0 < B" by (simp add: B_def)
  ultimately have "real n / 2 ^ p = of_int (int n) * 2 ^ (149 - p) / B"
    by (simp add: field_simps)
  then have "real n / 2 ^ p = of_int (int n) * 2 ^ (149 - p) / 2 ^ 149"
    unfolding B_def .
  from float_round_exact[OF _ _ this] n show ?thesis by simp
qed

lemma float_round_1: "float_round 1 = Finite 1"
  using float_round_nat[of 1] by simp

lemma float_of_nat_exact: "n < 2 ^ 24 \<Longrightarrow> float_of_nat n = Finite (real n)"
  by (simp add: float_of_nat_def float_round_nat)

lemma round_half_even_bound: "\<bar>of_int (round_half_even q) - q\<bar> \<le> 1 / 2"
proof -
  have "of_int \<lfloor>q\<rfloor> \<le> q" "q < of_int \<lfloor>q\<rfloor> + 1" by linarith+
  then show ?thesis
    by (auto simp: round_half_even_def Let_def)
qed

lemma float_ulp_pos: "0 < float_ulp x"
  by (simp add: float_ulp_def)

lemma float_ulp_le: "float_ulp x \<le> 2 ^ 104"
proof -
  have "float_binade x \<le> 253"
    unfolding float_binade_def by (rule binade_from_le)
  then have "(2 :: real) ^ float_binade x \<le> 2 ^ 253"
    by (intro power_increasing) auto
  then have "float_ulp x \<le> 2 ^ 253 / 2 ^ 149"
    unfolding float_ulp_def by (intro divide_right_mono) auto
  then show ?thesis by simp
qed

text \<open>The result of rounding is at most half a unit away.\<close>

lemma float_round_near:
  "\<bar>of_int (round_half_even (x / float_ulp x)) * float_ulp x - x\<bar> \<le> float_ulp x / 2"
proof -
  define u where "u = float_ulp x"
  have u: "0 < u" unfolding u_def by (rule float_ulp_pos)
  have "of_int (round_half_even (x / u)) * u - x = (of_int (round_half_even (x / u)) - x / u) * u"
    using u by (simp add: field_simps)
  then have "\<bar>of_int (round_half_even (x / u)) * u - x\<bar>
      = \<bar>of_int (round_half_even (x / u)) - x / u\<bar> * u"
    using u by (simp add: abs_mult)
  also have "\<dots> \<le> 1 / 2 * u"
    using u by (intro mult_right_mono round_half_even_bound) auto
  finally show ?thesis unfolding u_def by simp
qed

lemma float_round_finite:
  assumes "\<bar>x\<bar> \<le> 2 ^ 127"
  shows "\<exists>y. float_round x = Finite y \<and> \<bar>y - x\<bar> \<le> float_ulp x / 2"
proof -
  define y where "y = of_int (round_half_even (x / float_ulp x)) * float_ulp x"
  have n: "\<bar>y - x\<bar> \<le> float_ulp x / 2"
    unfolding y_def by (rule float_round_near)
  have "\<bar>y\<bar> \<le> \<bar>x\<bar> + float_ulp x / 2" using n by linarith
  also have "\<dots> \<le> 2 ^ 127 + 2 ^ 104 / 2"
    using assms float_ulp_le[of x] by linarith
  also have "\<dots> < 2 ^ 128" by simp
  finally have "\<not> 2 ^ 128 \<le> \<bar>y\<bar>" by simp
  then have "float_round x = Finite y"
    by (simp add: float_round_def Let_def y_def)
  with n show ?thesis by blast
qed

lemma fmul_zero_isfinite: "isfinite f \<Longrightarrow> fmul (Finite 0) f = Finite 0"
  by (cases f) (simp_all add: float_round_0)

lemma fmul_isfinite_zero: "isfinite v \<Longrightarrow> fmul v (Finite 0) = Finite 0"
  by (cases v) (simp_all add: float_round_0)

lemma float_round_twentieth: "float_round (1 / 20) = Finite (13421773 / 268435456)"
proof -
  have "float_binade (1 / 20) = 121"
    by (rule float_binade_eq) simp_all
  then show ?thesis
    by (simp add: float_round_def float_ulp_def round_half_even_def Let_def)
qed

lemma dbToFloat_0: "dbToFloat (Finite 0) = Finite 1"
  by (simp add: dbToFloat_def fle_def float_round_twentieth float_round_0 float_round_1)

lemma dbToFloat_floor: "dbToFloat (Finite (- 90)) = Finite 0"
  by (simp add: dbToFloat_def fle_def)

lemmas engine_defs =
  block_def press_def silence_def Looper_new_def run_def updateParameters_def button_def
  activateCallback_def resetCallback_def undoCallback_def redoCallback_def dubCallback_def
  is_recording_def startRecording_def finishRecording_def undo_def redo_def reset_def
  dbToFloat_0 dbToFloat_floor float_of_nat_def float_round_0 float_round_1
  run_sample_def checkThreshold_def capture_def advance_def
  NR_OF_DUBS_def NR_OF_BLEND_SAMPLES_def STORAGE_MEMORY_SECONDS_def Let_def

subsection \<open>The fade leaves everything but the samples alone\<close>

lemma blend_fields:
  "blend k s len si ei l = Some l' \<Longrightarrow>
     \<exists>a b. l' = l\<lparr> m_storage1 := a, m_storage2 := b \<rparr>"
proof (induction k arbitrary: s si ei l)
  case 0
  then have "l' = l\<lparr> m_storage1 := m_storage1 l, m_storage2 := m_storage2 l \<rparr>" by simp
  then show ?case by blast
next
  case (Suc k)
  from Suc.prems obtain b1 b2 where
    m: "blend k (s + 1) len (si + 1) (ei - 1) (l\<lparr> m_storage1 := b1, m_storage2 := b2 \<rparr>) = Some l'"
    by (simp add: Let_def split: if_splits)
  from Suc.IH[OF m] obtain a b where
    "l' = l\<lparr> m_storage1 := b1, m_storage2 := b2 \<rparr>\<lparr> m_storage1 := a, m_storage2 := b \<rparr>"
    by blast
  then have "l' = l\<lparr> m_storage1 := a, m_storage2 := b \<rparr>" by simp
  then show ?case by blast
qed

lemma finishRecording_recording:
  assumes "finishRecording l = Some l'" "m_state l \<noteq> LOOPER_STATE_WAITING_FOR_THRESHOLD"
  shows "m_nrOfDubs l < NR_OF_DUBS \<and>
    (\<exists>a b. l' = l\<lparr> m_state := LOOPER_STATE_PLAYING,
        m_loopLength := (if m_nrOfDubs l = 0 then m_length (m_dubs l 0) else m_loopLength l),
        m_currentLoopIndex := (if m_nrOfDubs l = 0 then 0 else m_currentLoopIndex l),
        m_storage1 := a, m_storage2 := b,
        m_nrOfDubs := m_nrOfDubs l + 1, m_maxUsedDubs := m_nrOfDubs l + 1 \<rparr>)"
proof -
  from assms have n: "m_nrOfDubs l < NR_OF_DUBS"
    by (simp add: finishRecording_def split: if_splits)
  define l2 where "l2 =
    (if m_nrOfDubs l = 0
     then l\<lparr> m_state := LOOPER_STATE_PLAYING, m_loopLength := m_length (m_dubs l 0),
             m_currentLoopIndex := 0 \<rparr>
     else l\<lparr> m_state := LOOPER_STATE_PLAYING \<rparr>)"
  from assms n obtain k s len si ei l3 where
    l3: "blend k s len si ei l2 = Some l3"
    and l': "l' = l3\<lparr> m_nrOfDubs := m_nrOfDubs l3 + 1, m_maxUsedDubs := m_nrOfDubs l3 + 1 \<rparr>"
    unfolding finishRecording_def Let_def l2_def
    by (simp split: if_splits bind_splits)
  from blend_fields[OF l3] obtain a b where "l3 = l2\<lparr> m_storage1 := a, m_storage2 := b \<rparr>"
    by blast
  with l' have "l' = l\<lparr> m_state := LOOPER_STATE_PLAYING,
        m_loopLength := (if m_nrOfDubs l = 0 then m_length (m_dubs l 0) else m_loopLength l),
        m_currentLoopIndex := (if m_nrOfDubs l = 0 then 0 else m_currentLoopIndex l),
        m_storage1 := a, m_storage2 := b,
        m_nrOfDubs := m_nrOfDubs l + 1, m_maxUsedDubs := m_nrOfDubs l + 1 \<rparr>"
    by (simp add: l2_def)
  with n show ?thesis by blast
qed

subsection \<open>The ledger invariant\<close>

lemma ledger_inv_new: "ledger_inv (Looper_new r mem1 mem2)"
  by (simp add: ledger_inv_def Looper_new_def)

lemma ledger_inv_reset: "ledger_inv (reset l)"
  by (simp add: ledger_inv_def reset_def)

lemma ledger_inv_startRecording: "ledger_inv l \<Longrightarrow> ledger_inv (startRecording l)"
  by (auto simp: ledger_inv_def startRecording_def)

lemma ledger_inv_finishRecording:
  assumes "ledger_inv l" "finishRecording l = Some l'"
  shows "ledger_inv l'"
proof (cases "m_state l = LOOPER_STATE_WAITING_FOR_THRESHOLD")
  case True
  with assms show ?thesis by (auto simp: finishRecording_def ledger_inv_def)
next
  case False
  from finishRecording_recording[OF assms(2) False] assms(1) show ?thesis
    by (auto simp: ledger_inv_def)
qed

lemma ledger_inv_undo:
  assumes "ledger_inv l" "undo l = Some l'"
  shows "ledger_inv l'"
proof -
  from assms(2) obtain l1 where
    l1: "(if m_state l = LOOPER_STATE_RECORDING then finishRecording l else Some l) = Some l1"
    by (auto simp: undo_def split: bind_splits)
  with assms(1) have i1: "ledger_inv l1"
    by (auto split: if_splits intro: ledger_inv_finishRecording)
  from assms(2) l1 have "l' = l1 \<or> l' = l1\<lparr> m_nrOfDubs := m_nrOfDubs l1 - 1,
       m_nrOfUsedSamples := m_storageOffset (m_dubs l1 (m_nrOfDubs l1 - 1)) \<rparr>
     \<and> 1 < m_nrOfDubs l1
     \<or> m_nrOfDubs l' = 0"
    by (auto simp: undo_def Let_def split: if_splits)
  with i1 show ?thesis
    by (auto simp: ledger_inv_def)
qed

lemma ledger_inv_redo:
  assumes "ledger_inv l" "redo l = Some l'"
  shows "ledger_inv l'"
  using assms by (auto simp: ledger_inv_def redo_def Let_def split: if_splits)

lemma ledger_inv_callbacks:
  assumes "ledger_inv l"
  shows "activateCallback p d l = Some l' \<Longrightarrow> ledger_inv l'"
    and "resetCallback p d l = Some l' \<Longrightarrow> ledger_inv l'"
    and "undoCallback p d l = Some l' \<Longrightarrow> ledger_inv l'"
    and "redoCallback p d l = Some l' \<Longrightarrow> ledger_inv l'"
    and "dubCallback p d l = Some l' \<Longrightarrow> ledger_inv l'"
  using assms
  by (auto simp: activateCallback_def resetCallback_def undoCallback_def redoCallback_def
      dubCallback_def
      intro: ledger_inv_reset ledger_inv_startRecording ledger_inv_finishRecording
        ledger_inv_undo ledger_inv_redo
      split: if_splits bind_splits)

lemma ledger_inv_button:
  assumes "ledger_inv l" "button c ev l = Some l'"
    "\<And>p d l l'. ledger_inv l \<Longrightarrow> c p d l = Some l' \<Longrightarrow> ledger_inv l'"
  shows "ledger_inv l'"
  using assms by (auto simp: button_def split: option.splits)

lemma ledger_inv_updateParameters:
  assumes "ledger_inv l" "updateParameters b l = Some l'"
  shows "ledger_inv l'"
proof -
  from assms(1) have i0: "ledger_inv (l\<lparr> m_threshold := dbToFloat (thresholdParameter b),
                    m_dryAmount := dryAmountParameter b \<rparr>)"
    by (simp add: ledger_inv_def)
  from assms(2) obtain l1 l2 l3 l4 where
    s: "button activateCallback (activateButton b)
          (l\<lparr> m_threshold := dbToFloat (thresholdParameter b),
              m_dryAmount := dryAmountParameter b \<rparr>) = Some l1"
       "button resetCallback (resetButton b) l1 = Some l2"
       "button undoCallback (undoButton b) l2 = Some l3"
       "button redoCallback (redoButton b) l3 = Some l4"
       "button dubCallback (dubButton b) l4 = Some l'"
    by (auto simp: updateParameters_def split: bind_splits)
  from ledger_inv_button[OF i0 s(1)] have "ledger_inv l1" by (blast intro: ledger_inv_callbacks)
  from ledger_inv_button[OF this s(2)] have "ledger_inv l2" by (blast intro: ledger_inv_callbacks)
  from ledger_inv_button[OF this s(3)] have "ledger_inv l3" by (blast intro: ledger_inv_callbacks)
  from ledger_inv_button[OF this s(4)] have "ledger_inv l4" by (blast intro: ledger_inv_callbacks)
  from ledger_inv_button[OF this s(5)] show ?thesis by (blast intro: ledger_inv_callbacks)
qed

lemma ledger_inv_checkThreshold:
  "ledger_inv l \<Longrightarrow> checkThreshold x l = Some l' \<Longrightarrow> ledger_inv l'"
  by (auto simp: ledger_inv_def checkThreshold_def split: if_splits)

lemma ledger_inv_capture:
  "ledger_inv l \<Longrightarrow> capture x l = Some l' \<Longrightarrow> ledger_inv l'"
  by (auto simp: ledger_inv_def capture_def split: if_splits)

lemma ledger_inv_index:
  "ledger_inv l \<Longrightarrow> ledger_inv (l\<lparr> m_currentLoopIndex := i \<rparr>)"
  by (simp add: ledger_inv_def)

lemma ledger_inv_advance:
  assumes "ledger_inv l" "advance l = Some l'"
  shows "ledger_inv l'"
  using assms
  by (auto simp: advance_def Let_def
      intro: ledger_inv_index ledger_inv_startRecording ledger_inv_finishRecording
      split: if_splits bind_splits)

lemma ledger_inv_run_sample:
  assumes "ledger_inv l" "run_sample x l = Some (l', out)"
  shows "ledger_inv l'"
proof -
  from assms(2) obtain l1 l2 where
    s: "checkThreshold x l = Some l1" "capture x l1 = Some l2" "advance l2 = Some l'"
    by (auto simp: run_sample_def split: bind_splits)
  from assms(1) s show ?thesis
    by (blast intro: ledger_inv_checkThreshold ledger_inv_capture ledger_inv_advance)
qed

lemma ledger_inv_run_samples:
  "ledger_inv l \<Longrightarrow> run_samples xs l = Some (l', outs) \<Longrightarrow> ledger_inv l'"
proof (induction xs arbitrary: l outs)
  case Nil
  then show ?case by simp
next
  case (Cons x xs)
  from Cons.prems(2) obtain l1 out outs' where
    s: "run_sample x l = Some (l1, out)" "run_samples xs l1 = Some (l', outs')"
    by (auto split: bind_splits)
  from ledger_inv_run_sample[OF Cons.prems(1) s(1)] have "ledger_inv l1" .
  from Cons.IH[OF this s(2)] show ?case .
qed

lemma ledger_inv_run:
  assumes "ledger_inv l" "run b l = Some (l', outs)"
  shows "ledger_inv l'"
  using assms
  by (auto simp: run_def intro: ledger_inv_updateParameters ledger_inv_run_samples
      split: bind_splits if_splits)

lemma reachable_ledger_inv: "reachable l \<Longrightarrow> ledger_inv l"
  by (induction rule: reachable.induct) (auto intro: ledger_inv_new ledger_inv_run)

lemma reachable_run_blocks:
  "reachable l \<Longrightarrow> run_blocks bs l = Some l' \<Longrightarrow> reachable l'"
proof (induction bs arbitrary: l)
  case Nil
  then show ?case by simp
next
  case (Cons b bs)
  then show ?case
    by (auto split: option.splits intro: reachable_run)
qed

lemma run_blocks_snoc:
  "run_blocks (bs @ [b]) s =
     (case run_blocks bs s of None \<Rightarrow> None | Some s' \<Rightarrow> map_option fst (run b s'))"
  by (induction bs arbitrary: s) (auto split: option.splits)

subsection \<open>The loop position\<close>

text \<open>
  The sample loop wraps the position once it exceeds the loop length, so between two
  samples it is at most the loop length.
\<close>

lemma index_inv_new: "index_inv (Looper_new r mem1 mem2)"
  by (simp add: index_inv_def Looper_new_def)

lemma index_inv_reset: "index_inv (reset l)"
  by (simp add: index_inv_def reset_def)

lemma index_inv_startRecording: "index_inv l \<Longrightarrow> index_inv (startRecording l)"
  by (auto simp: index_inv_def startRecording_def)

lemma index_inv_finishRecording:
  assumes "index_inv l" "finishRecording l = Some l'"
  shows "index_inv l'"
proof (cases "m_state l = LOOPER_STATE_WAITING_FOR_THRESHOLD")
  case True
  with assms show ?thesis by (auto simp: finishRecording_def index_inv_def)
next
  case False
  from finishRecording_recording[OF assms(2) False] assms(1) show ?thesis
    by (auto simp: index_inv_def)
qed

lemma index_inv_undo:
  assumes "index_inv l" "undo l = Some l'"
  shows "index_inv l'"
proof -
  from assms(2) obtain l1 where
    l1: "(if m_state l = LOOPER_STATE_RECORDING then finishRecording l else Some l) = Some l1"
    by (auto simp: undo_def split: bind_splits)
  with assms(1) have i1: "index_inv l1"
    by (auto split: if_splits intro: index_inv_finishRecording)
  from assms(2) l1 have "l' = l1
     \<or> (m_currentLoopIndex l' = m_currentLoopIndex l1 \<and> m_loopLength l' = m_loopLength l1)
     \<or> m_currentLoopIndex l' = 0"
    by (auto simp: undo_def Let_def split: if_splits)
  with i1 show ?thesis
    by (auto simp: index_inv_def)
qed

lemma index_inv_redo:
  assumes "index_inv l" "redo l = Some l'"
  shows "index_inv l'"
  using assms by (auto simp: index_inv_def redo_def Let_def split: if_splits)

lemma index_inv_callbacks:
  assumes "index_inv l"
  shows "activateCallback p d l = Some l' \<Longrightarrow> index_inv l'"
    and "resetCallback p d l = Some l' \<Longrightarrow> index_inv l'"
    and "undoCallback p d l = Some l' \<Longrightarrow> index_inv l'"
    and "redoCallback p d l = Some l' \<Longrightarrow> index_inv l'"
    and "dubCallback p d l = Some l' \<Longrightarrow> index_inv l'"
  using assms
  by (auto simp: activateCallback_def resetCallback_def undoCallback_def redoCallback_def
      dubCallback_def
      intro: index_inv_reset index_inv_startRecording index_inv_finishRecording
        index_inv_undo index_inv_redo
      split: if_splits bind_splits)

lemma index_inv_button:
  assumes "index_inv l" "button c ev l = Some l'"
    "\<And>p d l l'. index_inv l \<Longrightarrow> c p d l = Some l' \<Longrightarrow> index_inv l'"
  shows "index_inv l'"
  using assms by (auto simp: button_def split: option.splits)

lemma index_inv_updateParameters:
  assumes "index_inv l" "updateParameters b l = Some l'"
  shows "index_inv l'"
proof -
  from assms(1) have i0: "index_inv (l\<lparr> m_threshold := dbToFloat (thresholdParameter b),
                    m_dryAmount := dryAmountParameter b \<rparr>)"
    by (simp add: index_inv_def)
  from assms(2) obtain l1 l2 l3 l4 where
    s: "button activateCallback (activateButton b)
          (l\<lparr> m_threshold := dbToFloat (thresholdParameter b),
              m_dryAmount := dryAmountParameter b \<rparr>) = Some l1"
       "button resetCallback (resetButton b) l1 = Some l2"
       "button undoCallback (undoButton b) l2 = Some l3"
       "button redoCallback (redoButton b) l3 = Some l4"
       "button dubCallback (dubButton b) l4 = Some l'"
    by (auto simp: updateParameters_def split: bind_splits)
  from index_inv_button[OF i0 s(1)] have "index_inv l1" by (blast intro: index_inv_callbacks)
  from index_inv_button[OF this s(2)] have "index_inv l2" by (blast intro: index_inv_callbacks)
  from index_inv_button[OF this s(3)] have "index_inv l3" by (blast intro: index_inv_callbacks)
  from index_inv_button[OF this s(4)] have "index_inv l4" by (blast intro: index_inv_callbacks)
  from index_inv_button[OF this s(5)] show ?thesis by (blast intro: index_inv_callbacks)
qed

lemma index_inv_wrap: "index_inv (l\<lparr> m_currentLoopIndex := 0 \<rparr>)"
  by (simp add: index_inv_def)

lemma index_inv_advance:
  assumes "advance l = Some l'"
  shows "index_inv l'"
proof -
  define l1 where "l1 = (if m_nrOfDubs l > 0
      then l\<lparr> m_currentLoopIndex := m_currentLoopIndex l + 1 \<rparr> else l)"
  show ?thesis
  proof (cases "m_currentLoopIndex l1 > m_loopLength l1
      \<or> m_nrOfUsedSamples l1 \<ge> m_storageSize l1")
    case False
    with assms have "l' = l1"
      by (simp add: advance_def l1_def[symmetric] Let_def)
    with False show ?thesis by (simp add: index_inv_def)
  next
    case True
    define l2 where "l2 = l1\<lparr> m_currentLoopIndex := 0 \<rparr>"
    have i2: "index_inv l2" by (simp add: l2_def index_inv_wrap)
    from assms True have
      "(if m_state l2 = LOOPER_STATE_RECORDING
        then finishRecording l2 \<bind> (\<lambda>l3. Some (if m_nrOfDubs l3 > 1 then startRecording l3 else l3))
        else Some l2) = Some l'"
      unfolding advance_def l1_def[symmetric] Let_def l2_def[symmetric] by simp
    with i2 show ?thesis
      by (auto intro: index_inv_startRecording index_inv_finishRecording
          split: if_splits bind_splits)
  qed
qed

lemma index_inv_run_sample:
  assumes "run_sample x l = Some (l', out)"
  shows "index_inv l'"
  using assms by (auto simp: run_sample_def intro: index_inv_advance split: bind_splits)

lemma index_inv_run_samples:
  "index_inv l \<Longrightarrow> run_samples xs l = Some (l', outs) \<Longrightarrow> index_inv l'"
proof (induction xs arbitrary: l outs)
  case Nil
  then show ?case by simp
next
  case (Cons x xs)
  from Cons.prems(2) obtain l1 out outs' where
    s: "run_sample x l = Some (l1, out)" "run_samples xs l1 = Some (l', outs')"
    by (auto split: bind_splits)
  from index_inv_run_sample[OF s(1)] have "index_inv l1" .
  from Cons.IH[OF this s(2)] show ?case .
qed

lemma index_inv_run:
  assumes "index_inv l" "run b l = Some (l', outs)"
  shows "index_inv l'"
  using assms
  by (auto simp: run_def intro: index_inv_updateParameters index_inv_run_samples
      split: bind_splits if_splits)

lemma reachable_index_le: "reachable l \<Longrightarrow> m_currentLoopIndex l \<le> m_loopLength l"
proof (induction rule: reachable.induct)
  case (reachable_new sampleRate mem1 mem2)
  from index_inv_new[of sampleRate mem1 mem2] show ?case by (simp add: index_inv_def)
next
  case (reachable_run l b l' outs)
  then have "index_inv l" by (simp add: index_inv_def)
  from index_inv_run[OF this reachable_run(2)] show ?case by (simp add: index_inv_def)
qed

subsection \<open>What changes the loop length\<close>

lemma loop_startRecording:
  "m_loopLength (startRecording l) = m_loopLength l
   \<and> m_nrOfDubs (startRecording l) = m_nrOfDubs l"
  by (simp add: startRecording_def)

lemma loop_finishRecording:
  assumes "0 < m_nrOfDubs l" "finishRecording l = Some l'"
  shows "m_loopLength l' = m_loopLength l \<and> 0 < m_nrOfDubs l'"
proof (cases "m_state l = LOOPER_STATE_WAITING_FOR_THRESHOLD")
  case True
  with assms show ?thesis by (auto simp: finishRecording_def)
next
  case False
  from finishRecording_recording[OF assms(2) False] assms(1) show ?thesis
    by auto
qed

lemma loop_redo:
  assumes "0 < m_nrOfDubs l" "redo l = Some l'"
  shows "m_loopLength l' = m_loopLength l \<and> 0 < m_nrOfDubs l'"
  using assms by (auto simp: redo_def Let_def split: if_splits)

lemma loop_undo:
  assumes "0 < m_nrOfDubs l" "undo l = Some l'"
  shows "(0 < m_nrOfDubs l' \<longrightarrow> m_loopLength l' = m_loopLength l)
         \<and> (m_nrOfDubs l' = 0 \<longrightarrow> m_loopLength l' = 0)"
proof -
  from assms(2) obtain l1 where
    l1: "(if m_state l = LOOPER_STATE_RECORDING then finishRecording l else Some l) = Some l1"
    by (auto simp: undo_def split: bind_splits)
  with assms(1) have i1: "m_loopLength l1 = m_loopLength l \<and> 0 < m_nrOfDubs l1"
    by (auto split: if_splits dest: loop_finishRecording)
  from assms(2) l1 i1 show ?thesis
    by (auto simp: undo_def Let_def split: if_splits)
qed

lemma loop_advance:
  assumes "0 < m_nrOfDubs l" "advance l = Some l'"
  shows "m_loopLength l' = m_loopLength l \<and> 0 < m_nrOfDubs l'"
proof -
  have a: "m_loopLength (startRecording m) = m_loopLength m
           \<and> m_nrOfDubs (startRecording m) = m_nrOfDubs m" for m
    by (rule loop_startRecording)
  have f: "m_loopLength m' = m_loopLength l \<and> 0 < m_nrOfDubs m'"
    if "finishRecording (l\<lparr> m_currentLoopIndex := i \<rparr>) = Some m'" for i m'
    using loop_finishRecording[OF _ that] assms(1) by simp
  from assms show ?thesis
    by (auto simp: advance_def Let_def a dest!: f split: if_splits bind_splits)
qed

lemma loop_run_sample:
  assumes "0 < m_nrOfDubs l" "run_sample x l = Some (l', out)"
  shows "m_loopLength l' = m_loopLength l \<and> 0 < m_nrOfDubs l'"
proof -
  from assms(2) obtain l1 l2 where
    s: "checkThreshold x l = Some l1" "capture x l1 = Some l2" "advance l2 = Some l'"
    by (auto simp: run_sample_def split: bind_splits)
  from s(1) assms(1) have "m_loopLength l1 = m_loopLength l \<and> 0 < m_nrOfDubs l1"
    by (auto simp: checkThreshold_def split: if_splits)
  with s(2) have "m_loopLength l2 = m_loopLength l \<and> 0 < m_nrOfDubs l2"
    by (auto simp: capture_def split: if_splits)
  with loop_advance[OF _ s(3)] show ?thesis by simp
qed

lemma loop_run_samples:
  "0 < m_nrOfDubs l \<Longrightarrow> run_samples xs l = Some (l', outs)
     \<Longrightarrow> m_loopLength l' = m_loopLength l \<and> 0 < m_nrOfDubs l'"
proof (induction xs arbitrary: l outs)
  case Nil
  then show ?case by simp
next
  case (Cons x xs)
  from Cons.prems(2) obtain l1 out outs' where
    s: "run_sample x l = Some (l1, out)" "run_samples xs l1 = Some (l', outs')"
    by (auto split: bind_splits)
  from loop_run_sample[OF Cons.prems(1) s(1)]
  have l1: "m_loopLength l1 = m_loopLength l" "0 < m_nrOfDubs l1" by simp_all
  from Cons.IH[OF l1(2) s(2)] l1(1) show ?case by simp
qed

lemma first_take_fixes_loop:
  assumes "m_nrOfDubs l = 0" "m_state l = LOOPER_STATE_RECORDING" "finishRecording l = Some l'"
  shows "m_nrOfDubs l' = 1 \<and> m_loopLength l' = m_length (m_dubs l' 0)
         \<and> m_dubs l' = m_dubs l"
proof -
  from assms(2) have "m_state l \<noteq> LOOPER_STATE_WAITING_FOR_THRESHOLD" by simp
  from finishRecording_recording[OF assms(3) this] assms(1) show ?thesis by auto
qed

lemma undo_redo_first:
  assumes "ledger_inv l" "m_nrOfDubs l = 1" "m_state l \<noteq> LOOPER_STATE_RECORDING"
    "undo l = Some l1" "redo l1 = Some l2"
  shows "m_nrOfDubs l2 = 1 \<and> m_loopLength l2 = m_loopLength l"
proof -
  from assms(1,2) have i: "Suc 0 \<le> m_maxUsedDubs l" "m_loopLength l = m_length (m_dubs l 0)"
    by (auto simp: ledger_inv_def)
  from assms(2,3,4) have l1: "l1 = l\<lparr> m_nrOfDubs := 0,
      m_nrOfUsedSamples := m_storageOffset (m_dubs l 0),
      m_loopLength := 0, m_currentLoopIndex := 0 \<rparr>"
    by (auto simp: undo_def Let_def NR_OF_DUBS_def)
  from assms(5) i assms(3) show ?thesis unfolding l1
    by (auto simp: redo_def Let_def NR_OF_DUBS_def split: if_splits)
qed

text \<open>
  In every reachable state with an active dub, \<open>m_loopLength\<close> is the length of slot 0.
  From a state with an active dub, starting and finishing a take, a redo, an undo that
  leaves a dub active and the sample loop of \<open>run\<close> leave \<open>m_loopLength\<close> as it is. The
  finish of the first take sets it to the length of slot 0, an undo directly followed by
  a redo of the only dub gives it back, and \<open>reset\<close> clears it.
\<close>

lemma loop_length_facts:
  "(reachable l \<and> 0 < m_nrOfDubs l \<longrightarrow> m_loopLength l = m_length (m_dubs l 0))
   \<and> (0 < m_nrOfDubs l \<longrightarrow>
        m_loopLength (startRecording l) = m_loopLength l
        \<and> (\<forall>l'. finishRecording l = Some l' \<longrightarrow> m_loopLength l' = m_loopLength l)
        \<and> (\<forall>l'. redo l = Some l' \<longrightarrow> m_loopLength l' = m_loopLength l)
        \<and> (\<forall>l'. undo l = Some l' \<and> 0 < m_nrOfDubs l' \<longrightarrow> m_loopLength l' = m_loopLength l)
        \<and> (\<forall>xs l' outs. run_samples xs l = Some (l', outs) \<longrightarrow>
              m_loopLength l' = m_loopLength l \<and> 0 < m_nrOfDubs l'))
   \<and> (m_nrOfDubs l = 0 \<and> m_state l = LOOPER_STATE_RECORDING \<longrightarrow>
        (\<forall>l'. finishRecording l = Some l' \<longrightarrow>
           m_nrOfDubs l' = 1 \<and> m_loopLength l' = m_length (m_dubs l 0)))
   \<and> (reachable l \<and> m_nrOfDubs l = 1 \<and> m_state l \<noteq> LOOPER_STATE_RECORDING \<longrightarrow>
        (\<forall>l1 l2. undo l = Some l1 \<and> redo l1 = Some l2 \<longrightarrow>
           m_nrOfDubs l2 = 1 \<and> m_loopLength l2 = m_loopLength l))
   \<and> m_loopLength (reset l) = 0"
proof -
  have p1: "m_loopLength l = m_length (m_dubs l 0)" if "reachable l \<and> 0 < m_nrOfDubs l"
    using reachable_ledger_inv[of l] that by (simp add: ledger_inv_def)
  have p2: "m_loopLength (startRecording l) = m_loopLength l"
    by (simp add: loop_startRecording)
  have p3: "m_loopLength l' = m_loopLength l"
    if "0 < m_nrOfDubs l" "finishRecording l = Some l'" for l'
    using loop_finishRecording[OF that] by simp
  have p4: "m_loopLength l' = m_loopLength l" if "0 < m_nrOfDubs l" "redo l = Some l'" for l'
    using loop_redo[OF that] by simp
  have p5: "m_loopLength l' = m_loopLength l"
    if "0 < m_nrOfDubs l" "undo l = Some l' \<and> 0 < m_nrOfDubs l'" for l'
    using loop_undo[of l l'] that by simp
  have p6: "m_loopLength l' = m_loopLength l \<and> 0 < m_nrOfDubs l'"
    if "0 < m_nrOfDubs l" "run_samples xs l = Some (l', outs)" for xs l' outs
    using loop_run_samples[OF that] .
  have p7: "m_nrOfDubs l' = 1 \<and> m_loopLength l' = m_length (m_dubs l 0)"
    if "m_nrOfDubs l = 0 \<and> m_state l = LOOPER_STATE_RECORDING" "finishRecording l = Some l'" for l'
    using first_take_fixes_loop[of l l'] that by simp
  have p8: "m_nrOfDubs l2 = 1 \<and> m_loopLength l2 = m_loopLength l"
    if "reachable l \<and> m_nrOfDubs l = 1 \<and> m_state l \<noteq> LOOPER_STATE_RECORDING"
      "undo l = Some l1 \<and> redo l1 = Some l2" for l1 l2
    using undo_redo_first[of l l1 l2] reachable_ledger_inv[of l] that by simp
  have p9: "m_loopLength (reset l) = 0" by (simp add: reset_def)
  from p1 p2 p3 p4 p5 p6 p7 p8 p9 show ?thesis by blast
qed

subsection \<open>The sample loop while waiting and while recording\<close>

lemma dbToFloat_cases:
  "fle db (Finite (- 90)) \<Longrightarrow> dbToFloat db = Finite 0"
  "\<not> fle db (Finite (- 90)) \<Longrightarrow>
     dbToFloat db = powf 10 (fmul db (Finite (13421773 / 268435456)))"
  by (simp_all add: dbToFloat_def float_round_twentieth)

lemma dbToFloat_Finite:
  "dbToFloat (Finite d) =
     (if d \<le> - 90 then Finite 0 else powf 10 (float_round (d * (13421773 / 268435456))))"
  by (simp add: dbToFloat_def float_round_twentieth fle_def)

lemma fge_fmax: "fge (fmax a b) t \<longleftrightarrow> fge a t \<or> fge b t"
  by (cases a; cases b; cases t) (auto simp: max_def)

lemma meets_threshold_peak: "meets_threshold x t \<longleftrightarrow> fge (spec_peak x) t"
  by (simp add: meets_threshold_def spec_peak_def fge_fmax)

lemma flt_not_fge: "flt a t \<Longrightarrow> \<not> fge a t"
  by (cases a; cases t) auto

lemma fge_fabs_0: "fge (fabs a) (Finite 0) \<longleftrightarrow> a \<noteq> NaN"
  by (cases a) auto

lemma meets_floor: "meets_threshold x (Finite 0) \<longleftrightarrow> \<not> nan_pair x"
  by (auto simp: meets_threshold_def nan_pair_def fge_fabs_0)

lemma run_samples_append:
  "run_samples (xs @ ys) l =
     (case run_samples xs l of None \<Rightarrow> None
      | Some (l1, o1) \<Rightarrow>
          (case run_samples ys l1 of None \<Rightarrow> None
           | Some (l2, o2) \<Rightarrow> Some (l2, o1 @ o2)))"
proof (induction xs arbitrary: l)
  case Nil
  then show ?case by (simp split: option.splits)
next
  case (Cons x xs)
  show ?case
  proof (cases "run_sample x l")
    case None
    then show ?thesis by simp
  next
    case (Some r)
    then obtain l1 out where r: "run_sample x l = Some (l1, out)" by (cases r) auto
    then show ?thesis
      by (simp add: Cons.IH split: option.splits)
  qed
qed

lemma not_fge_iff: "\<not> fge a t \<longleftrightarrow> flt a t \<or> a = NaN \<or> t = NaN"
  by (cases a; cases t) auto

lemma spec_peak_NaN: "spec_peak x = NaN \<longleftrightarrow> nan_pair x"
  by (cases "fst x"; cases "snd x") (simp_all add: spec_peak_def nan_pair_def)

lemma float_round_tenth: "float_round (1 / 10) = Finite (13421773 / 134217728)"
proof -
  have "float_binade (1 / 10) = 122"
    by (rule float_binade_eq) simp_all
  then show ?thesis
    by (simp add: float_round_def float_ulp_def round_half_even_def Let_def)
qed

lemma dbToFloat_minus_20: "dbToFloat (Finite (- 20)) = Finite (13421773 / 134217728)"
proof -
  have "float_binade (- (67108865 / 67108864)) = 126"
    by (rule float_binade_eq) simp_all
  then have "float_round (- (67108865 / 67108864)) = Finite (- 1)"
    by (simp add: float_round_def float_ulp_def round_half_even_def Let_def)
  moreover have "(10 :: real) powr - 1 = 1 / 10"
    by (simp add: powr_neg_one)
  ultimately show ?thesis
    by (simp add: dbToFloat_Finite float_round_tenth)
qed

lemma waiting_sample:
  assumes "m_state l = LOOPER_STATE_WAITING_FOR_THRESHOLD"
    "\<not> meets_threshold x (m_threshold l)"
    "run_sample x l = Some (l', out)"
  shows "l' = l\<lparr> m_currentLoopIndex := m_currentLoopIndex l' \<rparr>"
proof -
  from assms(1,2) have c: "checkThreshold x l = Some l" "capture x l = Some l"
    by (simp_all add: checkThreshold_def capture_def meets_threshold_def)
  with assms(3) have "advance l = Some l'"
    by (auto simp: run_sample_def split: bind_splits)
  with assms(1) show ?thesis
    by (auto simp: advance_def Let_def split: if_splits)
qed

lemma waiting_samples:
  assumes "m_state l = LOOPER_STATE_WAITING_FOR_THRESHOLD"
    "\<forall>x\<in>set xs. \<not> meets_threshold x (m_threshold l)"
    "run_samples xs l = Some (l', outs)"
  shows "l' = l\<lparr> m_currentLoopIndex := m_currentLoopIndex l' \<rparr>"
  using assms
proof (induction xs arbitrary: l outs)
  case Nil
  then show ?case by simp
next
  case (Cons x xs)
  from Cons.prems(3) obtain l1 out outs' where
    s: "run_sample x l = Some (l1, out)" "run_samples xs l1 = Some (l', outs')"
    by (auto split: bind_splits)
  from Cons.prems(2) have x: "\<not> meets_threshold x (m_threshold l)"
    by simp
  from waiting_sample[OF Cons.prems(1) x s(1)]
  have l1: "l1 = l\<lparr> m_currentLoopIndex := m_currentLoopIndex l1 \<rparr>" .
  then have k: "m_state l1 = LOOPER_STATE_WAITING_FOR_THRESHOLD" "m_threshold l1 = m_threshold l"
    using Cons.prems(1) by (metis Looper.select_convs Looper.surjective Looper.update_convs(4))+
  with Cons.prems(2) have "\<forall>x\<in>set xs. \<not> meets_threshold x (m_threshold l1)" by simp
  from Cons.IH[OF k(1) this s(2)] have "l' = l1\<lparr> m_currentLoopIndex := m_currentLoopIndex l' \<rparr>" .
  with l1 show ?case
    by (metis Looper.update_convs(4) Looper.surjective)
qed

lemma store_samples_nth:
  "store_samples f u vs i = (if u \<le> i \<and> i < u + length vs then vs ! (i - u) else f i)"
proof (induction vs arbitrary: f u)
  case Nil
  then show ?case by auto
next
  case (Cons v vs)
  show ?case
  proof (cases "i = u")
    case True
    have "store_samples (f(u := v)) (u + 1) vs i = v"
      unfolding Cons.IH using True by simp
    with True show ?thesis by simp
  next
    case False
    then show ?thesis by (auto simp: Cons.IH nth_Cons' Suc_diff_Suc)
  qed
qed

lemma idle_waiting_samples:
  assumes "m_state l = LOOPER_STATE_WAITING_FOR_THRESHOLD" "m_nrOfDubs l = 0"
    "m_currentLoopIndex l \<le> m_loopLength l" "m_nrOfUsedSamples l < m_storageSize l"
    "\<forall>x\<in>set xs. \<not> meets_threshold x (m_threshold l)"
  shows "run_samples xs l =
           Some (l, map (\<lambda>x. (fmul (m_dryAmount l) (fst x), fmul (m_dryAmount l) (snd x))) xs)"
  using assms(5)
proof (induction xs)
  case Nil
  then show ?case by simp
next
  case (Cons x xs)
  from Cons.prems assms(1-4)
  have "run_sample x l = Some (l, (fmul (m_dryAmount l) (fst x), fmul (m_dryAmount l) (snd x)))"
    by (simp add: run_sample_def checkThreshold_def capture_def advance_def
        meets_threshold_def)
  with Cons show ?case by simp
qed

lemma recording_sample:
  assumes "m_state l = LOOPER_STATE_RECORDING" "m_nrOfDubs l = 0"
    "m_currentLoopIndex l \<le> m_loopLength l" "m_nrOfUsedSamples l + 1 < m_storageSize l"
  shows "run_sample x l =
    Some (l\<lparr> m_storage1 := (m_storage1 l)(m_nrOfUsedSamples l := fst x),
              m_storage2 := (m_storage2 l)(m_nrOfUsedSamples l := snd x),
              m_nrOfUsedSamples := m_nrOfUsedSamples l + 1,
              m_dubs := (m_dubs l)(0 := (m_dubs l 0)\<lparr> m_length := m_length (m_dubs l 0) + 1 \<rparr>) \<rparr>,
          (fmul (m_dryAmount l) (fst x), fmul (m_dryAmount l) (snd x)))"
  using assms
  by (simp add: run_sample_def checkThreshold_def capture_def advance_def NR_OF_DUBS_def)

lemma recording_samples:
  assumes "m_state l = LOOPER_STATE_RECORDING" "m_nrOfDubs l = 0"
    "m_currentLoopIndex l \<le> m_loopLength l"
    "m_nrOfUsedSamples l + length xs < m_storageSize l"
  shows "run_samples xs l =
    Some (l\<lparr> m_storage1 := store_samples (m_storage1 l) (m_nrOfUsedSamples l) (map fst xs),
              m_storage2 := store_samples (m_storage2 l) (m_nrOfUsedSamples l) (map snd xs),
              m_nrOfUsedSamples := m_nrOfUsedSamples l + length xs,
              m_dubs := (m_dubs l)(0 := (m_dubs l 0)
                  \<lparr> m_length := m_length (m_dubs l 0) + length xs \<rparr>) \<rparr>,
          map (\<lambda>x. (fmul (m_dryAmount l) (fst x), fmul (m_dryAmount l) (snd x))) xs)"
  using assms
proof (induction xs arbitrary: l)
  case Nil
  then show ?case by simp
next
  case (Cons x xs)
  define l1 where "l1 = l\<lparr> m_storage1 := (m_storage1 l)(m_nrOfUsedSamples l := fst x),
              m_storage2 := (m_storage2 l)(m_nrOfUsedSamples l := snd x),
              m_nrOfUsedSamples := m_nrOfUsedSamples l + 1,
              m_dubs := (m_dubs l)(0 := (m_dubs l 0)\<lparr> m_length := m_length (m_dubs l 0) + 1 \<rparr>) \<rparr>"
  from Cons.prems have "m_nrOfUsedSamples l + 1 < m_storageSize l" by simp
  from recording_sample[OF Cons.prems(1-3) this]
  have s: "run_sample x l
      = Some (l1, (fmul (m_dryAmount l) (fst x), fmul (m_dryAmount l) (snd x)))"
    by (simp add: l1_def)
  from Cons.prems have p: "m_state l1 = LOOPER_STATE_RECORDING" "m_nrOfDubs l1 = 0"
    "m_currentLoopIndex l1 \<le> m_loopLength l1"
    "m_nrOfUsedSamples l1 + length xs < m_storageSize l1"
    by (simp_all add: l1_def)
  from Cons.IH[OF p] s show ?case
    by (simp add: l1_def add.assoc fun_upd_same del: fun_upd_apply)
qed

lemma crossing_sample:
  assumes "m_state l = LOOPER_STATE_WAITING_FOR_THRESHOLD"
    "meets_threshold x (m_threshold l)" "m_nrOfDubs l = 0"
    "m_currentLoopIndex l \<le> m_loopLength l" "m_nrOfUsedSamples l + 1 < m_storageSize l"
  shows "run_sample x l =
    Some (l\<lparr> m_state := LOOPER_STATE_RECORDING,
              m_storage1 := (m_storage1 l)(m_nrOfUsedSamples l := fst x),
              m_storage2 := (m_storage2 l)(m_nrOfUsedSamples l := snd x),
              m_nrOfUsedSamples := m_nrOfUsedSamples l + 1,
              m_dubs := (m_dubs l)(0 := (m_dubs l 0)
                 \<lparr> m_startIndex := m_currentLoopIndex l,
                    m_length := m_length (m_dubs l 0) + 1 \<rparr>) \<rparr>,
          (fmul (m_dryAmount l) (fst x), fmul (m_dryAmount l) (snd x)))"
proof -
  from assms(2) have "fge (fabs (fst x)) (m_threshold l) \<or> fge (fabs (snd x)) (m_threshold l)"
    by (simp add: meets_threshold_def)
  with assms show ?thesis
    by (simp add: run_sample_def checkThreshold_def capture_def advance_def NR_OF_DUBS_def)
qed

lemma advance_used:
  assumes "advance l = Some l'"
  shows "m_nrOfUsedSamples l' = m_nrOfUsedSamples l"
proof -
  have f: "m_nrOfUsedSamples m' = m_nrOfUsedSamples m" if "finishRecording m = Some m'" for m m'
  proof (cases "m_state m = LOOPER_STATE_WAITING_FOR_THRESHOLD")
    case True
    with that show ?thesis by (auto simp: finishRecording_def)
  next
    case False
    from finishRecording_recording[OF that False] show ?thesis by auto
  qed
  have g: "m_nrOfUsedSamples (startRecording m) = m_nrOfUsedSamples m" for m
    by (simp add: startRecording_def)
  from assms show ?thesis
    by (auto simp: advance_def Let_def g dest!: f split: if_splits bind_splits)
qed

lemma crossing_records:
  assumes "m_state l = LOOPER_STATE_WAITING_FOR_THRESHOLD"
    "meets_threshold x (m_threshold l)"
  shows "checkThreshold x l = Some l1 \<Longrightarrow>
           m_state l1 = LOOPER_STATE_RECORDING
           \<and> m_startIndex (m_dubs l1 (m_nrOfDubs l)) = m_currentLoopIndex l"
    and "run_sample x l = Some (l', out) \<Longrightarrow> m_nrOfUsedSamples l' = m_nrOfUsedSamples l + 1"
proof -
  from assms(2) have c: "fge (fabs (fst x)) (m_threshold l) \<or> fge (fabs (snd x)) (m_threshold l)"
    by (simp add: meets_threshold_def)
  show "m_state l1 = LOOPER_STATE_RECORDING
           \<and> m_startIndex (m_dubs l1 (m_nrOfDubs l)) = m_currentLoopIndex l"
    if "checkThreshold x l = Some l1"
    using that assms(1) c by (auto simp: checkThreshold_def split: if_splits)
  show "m_nrOfUsedSamples l' = m_nrOfUsedSamples l + 1" if r: "run_sample x l = Some (l', out)"
  proof -
    from r obtain k1 k2 where
      s: "checkThreshold x l = Some k1" "capture x k1 = Some k2" "advance k2 = Some l'"
      by (auto simp: run_sample_def split: bind_splits)
    from s(1) assms(1) c have "m_state k1 = LOOPER_STATE_RECORDING"
      "m_nrOfUsedSamples k1 = m_nrOfUsedSamples l"
      by (auto simp: checkThreshold_def split: if_splits)
    with s(2) have "m_nrOfUsedSamples k2 = m_nrOfUsedSamples l + 1"
      by (auto simp: capture_def split: if_splits)
    with advance_used[OF s(3)] show ?thesis by simp
  qed
qed

lemma Looper_new_fields:
  "m_state (Looper_new r m1 m2) = LOOPER_STATE_INACTIVE"
  "m_currentLoopIndex (Looper_new r m1 m2) = 0"
  "m_loopLength (Looper_new r m1 m2) = 0"
  "m_nrOfUsedSamples (Looper_new r m1 m2) = 0"
  "m_storage1 (Looper_new r m1 m2) = m1"
  "m_storage2 (Looper_new r m1 m2) = m2"
  "m_nrOfDubs (Looper_new r m1 m2) = 0"
  "m_maxUsedDubs (Looper_new r m1 m2) = 0"
  "m_dubs (Looper_new r m1 m2) i = \<lparr> m_storageOffset = 0, m_length = 0, m_startIndex = 0 \<rparr>"
  by (simp_all add: Looper_new_def)

lemma fresh_activate:
  assumes "0 < m_storageSize (Looper_new r m1 m2)"
  shows "updateParameters ((block db dry ins)\<lparr> activateButton := press \<rparr>) (Looper_new r m1 m2)
    = Some ((Looper_new r m1 m2)\<lparr> m_threshold := dbToFloat db, m_dryAmount := dry,
         m_state := LOOPER_STATE_WAITING_FOR_THRESHOLD \<rparr>)"
proof -
  have "(\<lambda>_. \<lparr> m_storageOffset = 0, m_length = 0, m_startIndex = 0 \<rparr>)
       (0 := \<lparr> m_storageOffset = 0, m_length = 0, m_startIndex = 0 \<rparr>)
     = (\<lambda>_. \<lparr> m_storageOffset = 0, m_length = 0, m_startIndex = 0 \<rparr>)"
    by (rule ext) simp
  with assms show ?thesis
    by (simp add: updateParameters_def button_def block_def press_def activateCallback_def
        is_recording_def startRecording_def Looper_new_def NR_OF_DUBS_def)
qed

lemma fresh_waits:
  assumes "0 < m_storageSize (Looper_new r m1 m2)"
    "\<forall>x\<in>set ins. \<not> meets_threshold x (dbToFloat db)"
  shows "run ((block db dry ins)\<lparr> activateButton := press \<rparr>) (Looper_new r m1 m2)
    = Some ((Looper_new r m1 m2)\<lparr> m_threshold := dbToFloat db, m_dryAmount := dry,
              m_state := LOOPER_STATE_WAITING_FOR_THRESHOLD \<rparr>,
            map (\<lambda>x. (fmul dry (fst x), fmul dry (snd x))) ins)"
proof -
  define w where "w = (Looper_new r m1 m2)\<lparr> m_threshold := dbToFloat db, m_dryAmount := dry,
              m_state := LOOPER_STATE_WAITING_FOR_THRESHOLD \<rparr>"
  from assms have p: "m_state w = LOOPER_STATE_WAITING_FOR_THRESHOLD" "m_nrOfDubs w = 0"
    "m_currentLoopIndex w \<le> m_loopLength w" "m_nrOfUsedSamples w < m_storageSize w"
    "\<forall>x\<in>set ins. \<not> meets_threshold x (m_threshold w)"
    by (simp_all add: w_def Looper_new_def)
  have d: "m_dryAmount w = dry" by (simp add: w_def)
  have i: "inputs ((block db dry ins)\<lparr> activateButton := press \<rparr>) = ins"
    by (simp add: block_def)
  from idle_waiting_samples[OF p] fresh_activate[OF assms(1), of db dry ins] p(1) d i
  show ?thesis
    by (simp add: run_def w_def[symmetric])
qed

lemma fresh_records:
  assumes "fle db (Finite (- 90))" "\<forall>n\<in>set ns. nan_pair n" "\<not> nan_pair x"
    "length (ns @ x # xs) < m_storageSize (Looper_new r m1 m2)"
  shows "\<exists>l'. run ((block db dry (ns @ x # xs))\<lparr> activateButton := press \<rparr>) (Looper_new r m1 m2)
      = Some (l', map (\<lambda>x. (fmul dry (fst x), fmul dry (snd x))) (ns @ x # xs))
    \<and> m_state l' = LOOPER_STATE_RECORDING
    \<and> m_nrOfDubs l' = 0
    \<and> m_nrOfUsedSamples l' = length (x # xs)
    \<and> m_dubs l' 0 = \<lparr> m_storageOffset = 0, m_length = length (x # xs), m_startIndex = 0 \<rparr>
    \<and> m_storage1 l' = store_samples m1 0 (map fst (x # xs))
    \<and> m_storage2 l' = store_samples m2 0 (map snd (x # xs))
    \<and> m_storageSize l' = m_storageSize (Looper_new r m1 m2)
    \<and> m_maxUsedDubs l' = 0 \<and> m_threshold l' = Finite 0
    \<and> m_currentLoopIndex l' = 0 \<and> m_loopLength l' = 0"
proof -
  define w where "w = (Looper_new r m1 m2)\<lparr> m_threshold := dbToFloat db, m_dryAmount := dry,
              m_state := LOOPER_STATE_WAITING_FOR_THRESHOLD \<rparr>"
  from assms(4) have sz: "0 < m_storageSize (Looper_new r m1 m2)" by simp
  have t: "m_threshold w = Finite 0"
    using assms(1) by (simp add: w_def dbToFloat_def)
  from assms t have p: "m_state w = LOOPER_STATE_WAITING_FOR_THRESHOLD"
    "meets_threshold x (m_threshold w)" "m_nrOfDubs w = 0"
    "m_currentLoopIndex w \<le> m_loopLength w" "m_nrOfUsedSamples w + 1 < m_storageSize w"
    by (simp_all add: w_def Looper_new_fields meets_floor)
  from assms(2) t have n: "\<forall>x\<in>set ns. \<not> meets_threshold x (m_threshold w)"
    by (simp add: meets_floor)
  from p(5) have u: "m_nrOfUsedSamples w < m_storageSize w" by simp
  from idle_waiting_samples[OF p(1) p(3) p(4) u n]
  have s0: "run_samples ns w =
      Some (w, map (\<lambda>x. (fmul (m_dryAmount w) (fst x), fmul (m_dryAmount w) (snd x))) ns)" .
  define l1 where "l1 = w\<lparr> m_state := LOOPER_STATE_RECORDING,
              m_storage1 := (m_storage1 w)(m_nrOfUsedSamples w := fst x),
              m_storage2 := (m_storage2 w)(m_nrOfUsedSamples w := snd x),
              m_nrOfUsedSamples := m_nrOfUsedSamples w + 1,
              m_dubs := (m_dubs w)(0 := (m_dubs w 0)
                 \<lparr> m_startIndex := m_currentLoopIndex w,
                    m_length := m_length (m_dubs w 0) + 1 \<rparr>) \<rparr>"
  from crossing_sample[OF p]
  have s1: "run_sample x w
      = Some (l1, (fmul (m_dryAmount w) (fst x), fmul (m_dryAmount w) (snd x)))"
    by (simp add: l1_def)
  from assms have q: "m_state l1 = LOOPER_STATE_RECORDING" "m_nrOfDubs l1 = 0"
    "m_currentLoopIndex l1 \<le> m_loopLength l1"
    "m_nrOfUsedSamples l1 + length xs < m_storageSize l1"
    by (simp_all add: l1_def w_def Looper_new_fields)
  define l' where "l' = l1\<lparr> m_storage1 := store_samples (m_storage1 l1) (m_nrOfUsedSamples l1) (map fst xs),
              m_storage2 := store_samples (m_storage2 l1) (m_nrOfUsedSamples l1) (map snd xs),
              m_nrOfUsedSamples := m_nrOfUsedSamples l1 + length xs,
              m_dubs := (m_dubs l1)(0 := (m_dubs l1 0)
                  \<lparr> m_length := m_length (m_dubs l1 0) + length xs \<rparr>) \<rparr>"
  from recording_samples[OF q]
  have s2: "run_samples xs l1 =
      Some (l', map (\<lambda>x. (fmul (m_dryAmount l1) (fst x), fmul (m_dryAmount l1) (snd x))) xs)"
    by (simp add: l'_def)
  have d: "m_dryAmount w = dry" "m_dryAmount l1 = dry"
    by (simp_all add: l1_def w_def)
  from s1 s2 d have s12: "run_samples (x # xs) w =
      Some (l', map (\<lambda>x. (fmul dry (fst x), fmul dry (snd x))) (x # xs))"
    by simp
  from s0 s12 d
  have s: "run_samples (ns @ x # xs) w =
      Some (l', map (\<lambda>x. (fmul dry (fst x), fmul dry (snd x))) (ns @ x # xs))"
    by (simp add: run_samples_append)
  have i: "inputs ((block db dry (ns @ x # xs))\<lparr> activateButton := press \<rparr>) = ns @ x # xs"
    by (simp add: block_def)
  from fresh_activate[OF sz, of db dry "ns @ x # xs"] p(1) s i
  have "run ((block db dry (ns @ x # xs))\<lparr> activateButton := press \<rparr>) (Looper_new r m1 m2)
      = Some (l', map (\<lambda>x. (fmul dry (fst x), fmul dry (snd x))) (ns @ x # xs))"
    by (simp add: run_def w_def[symmetric])
  moreover have "m_state l' = LOOPER_STATE_RECORDING" "m_nrOfDubs l' = 0"
    "m_nrOfUsedSamples l' = length (x # xs)"
    "m_dubs l' 0 = \<lparr> m_storageOffset = 0, m_length = length (x # xs), m_startIndex = 0 \<rparr>"
    "m_storage1 l' = store_samples m1 0 (map fst (x # xs))"
    "m_storage2 l' = store_samples m2 0 (map snd (x # xs))"
    "m_storageSize l' = m_storageSize (Looper_new r m1 m2)"
    "m_maxUsedDubs l' = 0" "m_threshold l' = Finite 0"
    "m_currentLoopIndex l' = 0" "m_loopLength l' = 0"
    using t by (simp_all add: l'_def l1_def w_def Looper_new_fields)
  ultimately show ?thesis by blast
qed

subsection \<open>The fade in closed form\<close>

lemma blend_pointwise:
  assumes "si + k \<le> m_storageSize l" "ei < m_storageSize l" "k \<le> ei + 1"
  shows "\<exists>l'. blend k s len si ei l = Some l'
     \<and> (\<forall>i. m_storage1 l' i = fade_sample k s len si ei i (m_storage1 l i))
     \<and> (\<forall>i. m_storage2 l' i = fade_sample k s len si ei i (m_storage2 l i))"
  using assms
proof (induction k arbitrary: s si ei l)
  case 0
  then show ?case by simp
next
  case (Suc k)
  define f where "f = fade_factor s len"
  define a1 where "a1 = (m_storage1 l)(si := fmul (m_storage1 l si) f)"
  define a2 where "a2 = (m_storage2 l)(si := fmul (m_storage2 l si) f)"
  define l2 where "l2 = l\<lparr> m_storage1 := a1(ei := fmul (a1 ei) f),
      m_storage2 := a2(ei := fmul (a2 ei) f) \<rparr>"
  from Suc.prems have b: "si < m_storageSize l" "ei < m_storageSize l" "k \<le> ei" by simp_all
  then have step: "blend (Suc k) s len si ei l = blend k (Suc s) len (Suc si) (ei - 1) l2"
    by (simp add: Let_def l2_def a1_def a2_def f_def fade_factor_def)
  from Suc.prems have p: "Suc si + k \<le> m_storageSize l2" "ei - 1 < m_storageSize l2"
    "k \<le> ei - 1 + 1"
    by (simp_all add: l2_def)
  from Suc.IH[OF p, of "Suc s"] obtain l' where
    l': "blend k (Suc s) len (Suc si) (ei - 1) l2 = Some l'"
    "\<forall>i. m_storage1 l' i = fade_sample k (Suc s) len (Suc si) (ei - 1) i (m_storage1 l2 i)"
    "\<forall>i. m_storage2 l' i = fade_sample k (Suc s) len (Suc si) (ei - 1) i (m_storage2 l2 i)"
    by blast
  have g1: "fade_sample k (Suc s) len (Suc si) (ei - 1) i (m_storage1 l2 i)
      = fade_sample (Suc k) s len si ei i (m_storage1 l i)" for i
    by (simp add: l2_def a1_def f_def Let_def)
  have g2: "fade_sample k (Suc s) len (Suc si) (ei - 1) i (m_storage2 l2 i)
      = fade_sample (Suc k) s len si ei i (m_storage2 l i)" for i
    by (simp add: l2_def a2_def f_def Let_def)
  from l' show ?case unfolding step g1 g2 by blast
qed

lemma fade_closed_0: "fade_closed 0 s len si ei i x = x"
  by (auto simp: fade_closed_def Let_def)

lemma fade_sample_closed:
  assumes "k \<le> ei + 1"
  shows "fade_sample k s len si ei i x = fade_closed k s len si ei i x"
  using assms
proof (induction k arbitrary: s si ei x)
  case 0
  then show ?case by (simp add: fade_closed_0)
next
  case (Suc k)
  from Suc.prems have k: "k \<le> ei" by simp
  then have k': "k \<le> ei - 1 + 1" by simp
  define f where "f = fade_factor s len"
  define x' where "x' = (let x1 = (if i = si then fmul x f else x)
        in if i = ei then fmul x1 f else x1)"
  have "fade_sample (Suc k) s len si ei i x
      = fade_sample k (Suc s) len (Suc si) (ei - 1) i x'"
    by (simp add: x'_def f_def)
  also have "\<dots> = fade_closed k (Suc s) len (Suc si) (ei - 1) i x'"
    by (rule Suc.IH[OF k'])
  finally have step: "fade_sample (Suc k) s len si ei i x
      = fade_closed k (Suc s) len (Suc si) (ei - 1) i x'" .
  consider (both) "i = si" "i = ei" | (up) "i = si" "i \<noteq> ei" | (down) "i \<noteq> si" "i = ei"
    | (none) "i \<noteq> si" "i \<noteq> ei"
    by blast
  then have "fade_closed k (Suc s) len (Suc si) (ei - 1) i x' = fade_closed (Suc k) s len si ei i x"
  proof cases
    case both
    then have x': "x' = fmul (fmul x f) f" by (simp add: x'_def)
    from both k have nd: "(i \<le> ei - 1 \<and> ei - 1 < i + k) = False" by arith
    from both have nu: "(Suc si \<le> i \<and> i < Suc si + k) = False" by arith
    have "fade_closed k (Suc s) len (Suc si) (ei - 1) i x' = x'"
      unfolding fade_closed_def Let_def nd nu by simp
    moreover from both have "fade_closed (Suc k) s len si ei i x = fmul (fmul x f) f"
      by (simp add: fade_closed_def f_def)
    ultimately show ?thesis using x' by simp
  next
    case up
    then have x': "x' = fmul x f" by (simp add: x'_def)
    from up k have d: "(i \<le> ei - 1 \<and> ei - 1 < i + k) \<longleftrightarrow> (i \<le> ei \<and> ei < i + Suc k)"
      by arith
    have sd: "Suc s + (ei - 1 - i) = s + (ei - i)" if "i \<le> ei"
      using that up by arith
    from up have nu: "(Suc si \<le> i \<and> i < Suc si + k) = False" by arith
    have l: "fade_closed k (Suc s) len (Suc si) (ei - 1) i x'
        = (if i \<le> ei \<and> ei < i + Suc k then fmul x' (fade_factor (s + (ei - i)) len) else x')"
      unfolding fade_closed_def Let_def nu d using sd by auto
    from up have r: "fade_closed (Suc k) s len si ei i x
        = (if i \<le> ei \<and> ei < i + Suc k
           then fmul (fmul x f) (fade_factor (s + (ei - i)) len) else fmul x f)"
      by (auto simp: fade_closed_def Let_def f_def)
    from l r show ?thesis by (simp only: x')
  next
    case down
    then have x': "x' = fmul x f" by (simp add: x'_def)
    from down k have nd: "(i \<le> ei - 1 \<and> ei - 1 < i + k) = False" by arith
    from down have u: "(Suc si \<le> i \<and> i < Suc si + k) \<longleftrightarrow> (si \<le> i \<and> i < si + Suc k)"
      by arith
    have su: "Suc s + (i - Suc si) = s + (i - si)" if "si \<le> i"
      using that down by arith
    have lt: "\<not> s + (i - si) \<le> s" if "si \<le> i"
      using that down by arith
    have l: "fade_closed k (Suc s) len (Suc si) (ei - 1) i x'
        = (if si \<le> i \<and> i < si + Suc k then fmul x' (fade_factor (s + (i - si)) len) else x')"
      unfolding fade_closed_def Let_def nd u using su by auto
    from down have r: "fade_closed (Suc k) s len si ei i x
        = (if si \<le> i \<and> i < si + Suc k
           then fmul (fmul x f) (fade_factor (s + (i - si)) len) else fmul x f)"
      using lt by (auto simp: fade_closed_def Let_def f_def)
    from l r show ?thesis by (simp only: x')
  next
    case none
    then have x': "x' = x" by (simp add: x'_def)
    from none k have d: "(i \<le> ei - 1 \<and> ei - 1 < i + k) \<longleftrightarrow> (i \<le> ei \<and> ei < i + Suc k)"
      by arith
    from none have u: "(Suc si \<le> i \<and> i < Suc si + k) \<longleftrightarrow> (si \<le> i \<and> i < si + Suc k)"
      by arith
    have sd: "Suc s + (ei - 1 - i) = s + (ei - i)" if "i \<le> ei"
      using that none by arith
    have su: "Suc s + (i - Suc si) = s + (i - si)" if "si \<le> i"
      using that none by arith
    show ?thesis
      unfolding x' fade_closed_def Let_def u d
      using sd su by auto
  qed
  with step show ?case by simp
qed

lemma fade_factor_round:
  assumes "0 < len" "len < 2 ^ 24" "s < 2 ^ 24"
  shows "fade_factor s len = float_round (real s / real len)"
  using assms by (simp add: fade_factor_def float_of_nat_exact)

lemma fade_factor_0: "0 < len \<Longrightarrow> len < 2 ^ 24 \<Longrightarrow> fade_factor 0 len = Finite 0"
  by (simp add: fade_factor_round float_round_0)

lemma fade_factor_isfinite:
  assumes "0 < len" "len < 2 ^ 24" "s \<le> len"
  shows "isfinite (fade_factor s len)"
proof -
  from assms have s: "s < 2 ^ 24" by simp
  from assms have "real s / real len \<le> 1" by simp
  then have "\<bar>real s / real len\<bar> \<le> 2 ^ 127" by simp
  from float_round_finite[OF this] obtain y where "float_round (real s / real len) = Finite y"
    by blast
  with fade_factor_round[OF assms(1,2) s] show ?thesis by simp
qed

lemma fade_factor_dyadic:
  assumes "s < 2 ^ 24" "p < 24"
  shows "fade_factor s (2 ^ p) = Finite (real s / 2 ^ p)"
proof -
  have "(2 :: nat) ^ p < 2 ^ 24" using assms(2) by (intro power_strict_increasing) auto
  from fade_factor_round[OF _ this assms(1)] have "fade_factor s (2 ^ p) = float_round (real s / 2 ^ p)"
    by simp
  also have "\<dots> = Finite (real s / 2 ^ p)"
    using assms by (intro float_round_dyadic) auto
  finally show ?thesis .
qed


lemma fade_closed_first:
  assumes "0 < n" "n \<le> len" "n < 2 ^ 24" "isfinite x"
  shows "fade_closed n 0 n a (a + len - 1) a x = Finite 0"
proof -
  define e where "e = a + len - 1"
  from assms have up: "(a \<le> a \<and> a < a + n) = True" by simp
  have z: "fmul x (fade_factor 0 n) = Finite 0"
    using assms by (simp add: fade_factor_0 fmul_isfinite_zero)
  show ?thesis
  proof (cases "a \<le> e \<and> e < a + n")
    case False
    then have down: "(a \<le> e \<and> e < a + n) = False" by simp
    show ?thesis unfolding e_def[symmetric] fade_closed_def Let_def up down using z by simp
  next
    case True
    then have down: "(a \<le> e \<and> e < a + n) = True" by simp
    from True have "e - a \<le> n" by arith
    from fade_factor_isfinite[OF assms(1,3) this]
    have "fmul (Finite 0) (fade_factor (e - a) n) = Finite 0"
      by (rule fmul_zero_isfinite)
    then show ?thesis unfolding e_def[symmetric] fade_closed_def Let_def up down using z by simp
  qed
qed

lemma fade_closed_last:
  assumes "0 < n" "n \<le> len" "n < 2 ^ 24" "isfinite x"
  shows "fade_closed n 0 n a (a + len - 1) (a + len - 1) x = Finite 0"
proof -
  define e where "e = a + len - 1"
  from assms have down: "(e \<le> e \<and> e < e + n) = True" by simp
  have z: "fmul x (fade_factor 0 n) = Finite 0"
    using assms by (simp add: fade_factor_0 fmul_isfinite_zero)
  have z0: "fmul (Finite 0) (fade_factor 0 n) = Finite 0"
    using assms by (simp add: fade_factor_0 float_round_0)
  show ?thesis
  proof (cases "a \<le> e \<and> e < a + n")
    case False
    then have up: "(a \<le> e \<and> e < a + n) = False" by simp
    show ?thesis unfolding e_def[symmetric] fade_closed_def Let_def up down using z by simp
  next
    case True
    then have up: "(a \<le> e \<and> e < a + n) = True" by simp
    from True have "e - a \<le> n" by arith
    from fade_factor_isfinite[OF assms(1,3) this]
    have "fmul (Finite 0) (fade_factor (e - a) n) = Finite 0"
      by (rule fmul_zero_isfinite)
    then show ?thesis
      unfolding e_def[symmetric] fade_closed_def Let_def up down using z z0 by auto
  qed
qed


lemma fade_closed_long:
  assumes "k < n" "n + k < len"
  shows "fade_closed n 0 n a (a + len - 1) (a + k) x = fmul x (fade_factor k n)"
proof -
  from assms have up: "(a \<le> a + k \<and> a + k < a + n) = True" by simp
  from assms have down: "(a + k \<le> a + len - 1 \<and> a + len - 1 < a + k + n) = False" by arith
  show ?thesis
    unfolding fade_closed_def Let_def up down by simp
qed

lemma finishRecording_fade:
  assumes "m_state l \<noteq> LOOPER_STATE_WAITING_FOR_THRESHOLD" "m_nrOfDubs l < NR_OF_DUBS"
    "0 < m_length (current_dub l)"
    "m_storageOffset (current_dub l) + m_length (current_dub l) \<le> m_storageSize l"
  shows "\<exists>l'. finishRecording l = Some l'
     \<and> (\<forall>i. m_storage1 l' i =
          fade_closed (min (m_length (current_dub l)) NR_OF_BLEND_SAMPLES) 0
            (min (m_length (current_dub l)) NR_OF_BLEND_SAMPLES)
            (m_storageOffset (current_dub l))
            (m_storageOffset (current_dub l) + m_length (current_dub l) - 1) i (m_storage1 l i))
     \<and> (\<forall>i. m_storage2 l' i =
          fade_closed (min (m_length (current_dub l)) NR_OF_BLEND_SAMPLES) 0
            (min (m_length (current_dub l)) NR_OF_BLEND_SAMPLES)
            (m_storageOffset (current_dub l))
            (m_storageOffset (current_dub l) + m_length (current_dub l) - 1) i (m_storage2 l i))"
proof -
  define d where "d = m_dubs l (m_nrOfDubs l)"
  have cd: "current_dub l = d" by (simp add: current_dub_def d_def)
  define n where "n = min (m_length d) NR_OF_BLEND_SAMPLES"
  define l2 where "l2 = (if m_nrOfDubs l = 0
     then l\<lparr> m_state := LOOPER_STATE_PLAYING, m_loopLength := m_length d,
             m_currentLoopIndex := 0 \<rparr>
     else l\<lparr> m_state := LOOPER_STATE_PLAYING \<rparr>)"
  have n: "(if m_length d > NR_OF_BLEND_SAMPLES then NR_OF_BLEND_SAMPLES else m_length d) = n"
    by (simp add: n_def min_def)
  have sz: "m_storageSize l2 = m_storageSize l" by (simp add: l2_def)
  from assms(3,4) have b: "m_storageOffset d + n \<le> m_storageSize l2"
    "m_storageOffset d + m_length d - 1 < m_storageSize l2"
    "n \<le> m_storageOffset d + m_length d - 1 + 1"
    unfolding sz cd n_def by (simp_all add: min_def)
  from blend_pointwise[OF b, of 0 n] obtain l3 where
    l3: "blend n 0 n (m_storageOffset d) (m_storageOffset d + m_length d - 1) l2 = Some l3"
    "\<forall>i. m_storage1 l3 i = fade_sample n 0 n (m_storageOffset d)
        (m_storageOffset d + m_length d - 1) i (m_storage1 l2 i)"
    "\<forall>i. m_storage2 l3 i = fade_sample n 0 n (m_storageOffset d)
        (m_storageOffset d + m_length d - 1) i (m_storage2 l2 i)"
    by blast
  have s: "m_storage1 l2 = m_storage1 l" "m_storage2 l2 = m_storage2 l"
    by (simp_all add: l2_def)
  from assms(1,2) l3(1)
  have "finishRecording l = Some (l3\<lparr> m_nrOfDubs := m_nrOfDubs l3 + 1,
                        m_maxUsedDubs := m_nrOfDubs l3 + 1 \<rparr>)"
    unfolding finishRecording_def Let_def d_def[symmetric] n
    by (simp add: l2_def)
  moreover from l3(2,3) have
    "\<forall>i. m_storage1 (l3\<lparr> m_nrOfDubs := m_nrOfDubs l3 + 1, m_maxUsedDubs := m_nrOfDubs l3 + 1 \<rparr>) i
        = fade_closed n 0 n (m_storageOffset d) (m_storageOffset d + m_length d - 1) i
            (m_storage1 l i)"
    "\<forall>i. m_storage2 (l3\<lparr> m_nrOfDubs := m_nrOfDubs l3 + 1, m_maxUsedDubs := m_nrOfDubs l3 + 1 \<rparr>) i
        = fade_closed n 0 n (m_storageOffset d) (m_storageOffset d + m_length d - 1) i
            (m_storage2 l i)"
    using b(3) by (simp_all add: s fade_sample_closed)
  ultimately show ?thesis unfolding cd n_def by blast
qed

lemma stop_block:
  assumes "is_recording l"
  shows "run ((block db dry [])\<lparr> activateButton := press \<rparr>) l
    = map_option (\<lambda>l'. (l', []))
        (finishRecording (l\<lparr> m_threshold := dbToFloat db, m_dryAmount := dry \<rparr>))"
proof -
  from assms have r: "is_recording (l\<lparr> m_threshold := dbToFloat db, m_dryAmount := dry \<rparr>)"
    by (simp add: is_recording_def)
  show ?thesis
    using r
    by (cases "finishRecording (l\<lparr> m_threshold := dbToFloat db, m_dryAmount := dry \<rparr>)")
      (simp_all add: run_def updateParameters_def button_def block_def press_def
        activateCallback_def)
qed

lemma first_take:
  assumes "fle db (Finite (- 90))" "ins \<noteq> []" "\<not> nan_pair (hd ins)"
    "length ins < m_storageSize (Looper_new r m1 m2)"
  shows "\<exists>l'. run_blocks [(block db dry ins)\<lparr> activateButton := press \<rparr>,
                          (block db' dry' [])\<lparr> activateButton := press \<rparr>]
             (Looper_new r m1 m2) = Some l'
     \<and> m_state l' = LOOPER_STATE_PLAYING \<and> m_nrOfDubs l' = 1 \<and> m_maxUsedDubs l' = 1
     \<and> m_loopLength l' = length ins \<and> m_currentLoopIndex l' = 0
     \<and> m_nrOfUsedSamples l' = length ins
     \<and> m_dubs l' 0 = \<lparr> m_storageOffset = 0, m_length = length ins, m_startIndex = 0 \<rparr>
     \<and> (\<forall>i. m_storage1 l' i =
           fade_closed (min (length ins) NR_OF_BLEND_SAMPLES) 0
             (min (length ins) NR_OF_BLEND_SAMPLES) 0 (length ins - 1) i
             (store_samples m1 0 (map fst ins) i))
     \<and> (\<forall>i. m_storage2 l' i =
           fade_closed (min (length ins) NR_OF_BLEND_SAMPLES) 0
             (min (length ins) NR_OF_BLEND_SAMPLES) 0 (length ins - 1) i
             (store_samples m2 0 (map snd ins) i))
     \<and> m_storageSize l' = m_storageSize (Looper_new r m1 m2)"
proof -
  from assms(2) obtain x xs where ins: "ins = x # xs" by (cases ins) auto
  define d where "d = \<lparr> m_storageOffset = 0, m_length = length ins, m_startIndex = 0 \<rparr>"
  from assms have "fle db (Finite (- 90))" "\<forall>n\<in>set []. nan_pair n" "\<not> nan_pair x"
    "length ([] @ x # xs) < m_storageSize (Looper_new r m1 m2)"
    by (simp_all add: ins)
  from fresh_records[OF this, of dry] obtain R where
    R: "run ((block db dry ins)\<lparr> activateButton := press \<rparr>) (Looper_new r m1 m2)
        = Some (R, map (\<lambda>x. (fmul dry (fst x), fmul dry (snd x))) ins)"
      "m_state R = LOOPER_STATE_RECORDING" "m_nrOfDubs R = 0"
      "m_nrOfUsedSamples R = length ins" "m_dubs R 0 = d"
      "m_storage1 R = store_samples m1 0 (map fst ins)"
      "m_storage2 R = store_samples m2 0 (map snd ins)"
      "m_storageSize R = m_storageSize (Looper_new r m1 m2)"
    unfolding ins d_def by auto
  define R' where "R' = R\<lparr> m_threshold := dbToFloat db', m_dryAmount := dry' \<rparr>"
  have cd: "current_dub R' = d" using R(3,5) by (simp add: current_dub_def R'_def)
  from R assms(2,4) have h: "m_state R' \<noteq> LOOPER_STATE_WAITING_FOR_THRESHOLD"
    "m_nrOfDubs R' < NR_OF_DUBS" "0 < m_length (current_dub R')"
    "m_storageOffset (current_dub R') + m_length (current_dub R') \<le> m_storageSize R'"
    unfolding cd by (simp_all add: R'_def d_def NR_OF_DUBS_def)
  from finishRecording_fade[OF h] obtain l' where
    f: "finishRecording R' = Some l'"
    and s1: "\<And>i. m_storage1 l' i =
          fade_closed (min (length ins) NR_OF_BLEND_SAMPLES) 0
             (min (length ins) NR_OF_BLEND_SAMPLES) 0 (length ins - 1) i (m_storage1 R' i)"
    and s2: "\<And>i. m_storage2 l' i =
          fade_closed (min (length ins) NR_OF_BLEND_SAMPLES) 0
             (min (length ins) NR_OF_BLEND_SAMPLES) 0 (length ins - 1) i (m_storage2 R' i)"
    unfolding cd by (auto simp: d_def)
  from finishRecording_recording[OF f h(1)] R(2-5,8)
  have g: "m_state l' = LOOPER_STATE_PLAYING" "m_nrOfDubs l' = 1" "m_maxUsedDubs l' = 1"
    "m_loopLength l' = length ins" "m_currentLoopIndex l' = 0"
    "m_nrOfUsedSamples l' = length ins" "m_dubs l' 0 = d"
    "m_storageSize l' = m_storageSize (Looper_new r m1 m2)"
    by (auto simp: R'_def d_def)
  from R(2) have "is_recording R" by (simp add: is_recording_def)
  from stop_block[OF this, of db' dry'] f
  have "run ((block db' dry' [])\<lparr> activateButton := press \<rparr>) R = Some (l', [])"
    by (simp add: R'_def)
  with R(1) have "run_blocks [(block db dry ins)\<lparr> activateButton := press \<rparr>,
                          (block db' dry' [])\<lparr> activateButton := press \<rparr>]
             (Looper_new r m1 m2) = Some l'"
    by simp
  moreover from s1 s2 R(6,7)
  have "\<forall>i. m_storage1 l' i =
           fade_closed (min (length ins) NR_OF_BLEND_SAMPLES) 0
             (min (length ins) NR_OF_BLEND_SAMPLES) 0 (length ins - 1) i
             (store_samples m1 0 (map fst ins) i)"
    "\<forall>i. m_storage2 l' i =
           fade_closed (min (length ins) NR_OF_BLEND_SAMPLES) 0
             (min (length ins) NR_OF_BLEND_SAMPLES) 0 (length ins - 1) i
             (store_samples m2 0 (map snd ins) i)"
    by (simp_all add: R'_def)
  ultimately show ?thesis using g unfolding d_def by blast
qed

lemma ones_take_stored:
  assumes "0 < n" "n < 34560000"
  shows "\<exists>l. run_blocks (ones_take n) (Looper_new 48000 silence silence) = Some l
     \<and> m_state l = LOOPER_STATE_PLAYING \<and> m_nrOfDubs l = 1
     \<and> m_dubs l 0 = \<lparr> m_storageOffset = 0, m_length = n, m_startIndex = 0 \<rparr>
     \<and> (\<forall>i. m_storage1 l i =
           fade_closed (min n NR_OF_BLEND_SAMPLES) 0 (min n NR_OF_BLEND_SAMPLES) 0 (n - 1) i
             (if i < n then Finite 1 else Finite 0))"
proof -
  have sz: "m_storageSize (Looper_new 48000 silence silence) = 34560000"
    by (simp add: Looper_new_def STORAGE_MEMORY_SECONDS_def)
  from assms(1) obtain m where m: "n = Suc m" by (cases n) auto
  have a: "fle (Finite (- 90)) (Finite (- 90))" by (simp add: fle_def)
  have b: "replicate n (Finite 1, Finite 1) \<noteq> []"
    "\<not> nan_pair (hd (replicate n (Finite 1, Finite 1)))"
    "length (replicate n (Finite 1, Finite 1)) < m_storageSize (Looper_new 48000 silence silence)"
    using assms by (simp_all add: sz m nan_pair_def)
  have v: "store_samples silence 0 (map fst (replicate n (Finite 1, Finite 1))) i
      = (if i < n then Finite 1 else Finite 0)" for i
    by (simp add: store_samples_nth silence_def)
  from first_take[OF a b, of "Finite 0" "Finite (- 90)" "Finite 0"] obtain l where
    l: "run_blocks (ones_take n) (Looper_new 48000 silence silence) = Some l"
      "m_state l = LOOPER_STATE_PLAYING" "m_nrOfDubs l = 1"
      "m_dubs l 0 = \<lparr> m_storageOffset = 0, m_length = n, m_startIndex = 0 \<rparr>"
      "\<And>i. m_storage1 l i =
           fade_closed (min n NR_OF_BLEND_SAMPLES) 0 (min n NR_OF_BLEND_SAMPLES) 0 (n - 1) i
             (store_samples silence 0 (map fst (replicate n (Finite 1, Finite 1))) i)"
    unfolding ones_take_def by auto
  from l(5) have "\<forall>i. m_storage1 l i =
           fade_closed (min n NR_OF_BLEND_SAMPLES) 0 (min n NR_OF_BLEND_SAMPLES) 0 (n - 1) i
             (if i < n then Finite 1 else Finite 0)"
    unfolding v by blast
  with l(1-4) show ?thesis by blast
qed

text \<open>
  In a take of 128 samples the ramps do not meet, and they are 64 samples long: stored
  sample 16 is a quarter of the recorded one. The comment on the fade in
  \<open>finishRecording\<close> speaks of 32 samples.
\<close>

lemma long_take_sample_16:
  "map_option (\<lambda>l. (m_nrOfDubs l, m_length (m_dubs l 0),
          m_storage1 l 0, m_storage1 l 16, m_storage1 l 127))
       (run_blocks (ones_take 128) (Looper_new 48000 silence silence))
     = Some (1, 128, Finite 0, Finite (1 / 4), Finite 0)"
proof -
  from ones_take_stored[of 128] obtain l where
    l: "run_blocks (ones_take 128) (Looper_new 48000 silence silence) = Some l"
      "m_nrOfDubs l = 1"
      "m_dubs l 0 = \<lparr> m_storageOffset = 0, m_length = 128, m_startIndex = 0 \<rparr>"
      "\<And>i. m_storage1 l i = fade_closed 64 0 64 0 127 i (if i < 128 then Finite 1 else Finite 0)"
    by (auto simp: NR_OF_BLEND_SAMPLES_def)
  have "fade_closed 64 0 64 0 (0 + 128 - 1) 0 (Finite 1) = Finite 0"
    by (rule fade_closed_first) simp_all
  then have f0: "m_storage1 l 0 = Finite 0" by (simp add: l(4))
  have "fade_closed 64 0 64 0 (0 + 128 - 1) (0 + 128 - 1) (Finite 1) = Finite 0"
    by (rule fade_closed_last) simp_all
  then have f127: "m_storage1 l 127 = Finite 0" by (simp add: l(4))
  have q: "fade_factor 16 64 = Finite (1 / 4)"
    using fade_factor_dyadic[of 16 6] by simp
  have r: "float_round (1 / 4) = Finite (1 / 4)"
    using float_round_dyadic[of 1 2] by simp
  have "fade_closed 64 0 64 0 (0 + 128 - 1) (0 + 16) (Finite 1) = fmul (Finite 1) (fade_factor 16 64)"
    by (rule fade_closed_long) simp_all
  then have f16: "m_storage1 l 16 = Finite (1 / 4)"
    by (simp add: l(4) q r)
  from l(1-3) f0 f16 f127 show ?thesis by simp
qed

text \<open>
  The range of a take can leave the arena. In an arena of 720 samples (a sample rate of
  1 Hz) a first take of 719 samples is recorded and stopped. A second take is started and
  Undo is pressed while it waits for the threshold: no dub is active and no sample is in
  use, but the engine keeps waiting, and the next two samples are recorded into slot 0 on
  top of its old length, which becomes 721. When the take is stopped, the fade starts
  from the sample at index 720, outside the arena.
\<close>

lemma fade_beyond_arena:
  "map_option (\<lambda>l. (m_state l, m_nrOfDubs l, m_nrOfUsedSamples l, m_length (m_dubs l 0),
        m_storageSize l))
     (run_blocks (ones_take 719 @ [hd overlong_take]) (Looper_new 1 silence silence))
   = Some (LOOPER_STATE_RECORDING, 0, 2, 721, 720)
   \<and> run_blocks (ones_take 719 @ overlong_take) (Looper_new 1 silence silence) = None"
proof -
  have sz: "m_storageSize (Looper_new 1 silence silence) = 720"
    by (simp add: Looper_new_def STORAGE_MEMORY_SECONDS_def)
  have a: "fle (Finite (- 90)) (Finite (- 90))" by (simp add: fle_def)
  have b: "replicate 719 (Finite 1, Finite 1) \<noteq> []"
    "\<not> nan_pair (hd (replicate 719 (Finite 1, Finite 1)))"
    "length (replicate 719 (Finite 1, Finite 1)) < m_storageSize (Looper_new 1 silence silence)"
    by (simp_all add: sz nan_pair_def numeral_eq_Suc)
  from first_take[OF a b, of "Finite 0" "Finite (- 90)" "Finite 0"] obtain l where
    l: "run_blocks (ones_take 719) (Looper_new 1 silence silence) = Some l"
      "m_state l = LOOPER_STATE_PLAYING" "m_nrOfDubs l = 1" "m_maxUsedDubs l = 1"
      "m_loopLength l = 719" "m_currentLoopIndex l = 0" "m_nrOfUsedSamples l = 719"
      "m_dubs l 0 = \<lparr> m_storageOffset = 0, m_length = 719, m_startIndex = 0 \<rparr>"
      "m_storageSize l = 720"
    unfolding ones_take_def sz by auto
  \<comment> \<open>Activate starts a take, Undo deactivates the only dub\<close>
  define w where "w = (startRecording (l\<lparr> m_threshold := Finite 0, m_dryAmount := Finite 0 \<rparr>))
      \<lparr> m_nrOfDubs := 0, m_nrOfUsedSamples := 0, m_loopLength := 0, m_currentLoopIndex := 0 \<rparr>"
  have u: "updateParameters (hd overlong_take) l = Some w"
    using l
    by (simp add: overlong_take_def updateParameters_def button_def block_def press_def
        activateCallback_def undoCallback_def is_recording_def dbToFloat_floor
        startRecording_def undo_def NR_OF_DUBS_def Let_def w_def)
  have wf: "m_state w = LOOPER_STATE_WAITING_FOR_THRESHOLD" "m_nrOfDubs w = 0"
    "m_threshold w = Finite 0" "m_currentLoopIndex w = 0" "m_loopLength w = 0"
    "m_nrOfUsedSamples w = 0" "m_storageSize w = 720"
    "m_dubs w 0 = \<lparr> m_storageOffset = 0, m_length = 719, m_startIndex = 0 \<rparr>"
    using l by (simp_all add: w_def startRecording_def NR_OF_DUBS_def)
  \<comment> \<open>two samples are recorded into slot 0\<close>
  define r where "r = w\<lparr> m_state := LOOPER_STATE_RECORDING,
      m_storage1 := (m_storage1 w)(0 := Finite 1, Suc 0 := Finite 1),
      m_storage2 := (m_storage2 w)(0 := Finite 1, Suc 0 := Finite 1),
      m_nrOfUsedSamples := 2,
      m_dubs := (m_dubs w)(0 := \<lparr> m_storageOffset = 0, m_length = 721, m_startIndex = 0 \<rparr>) \<rparr>"
  have s: "run_samples [(Finite 1, Finite 1), (Finite 1, Finite 1)] w
      = Some (r, [(Finite 0, Finite 0), (Finite 0, Finite 0)])"
    using wf
    by (simp add: run_sample_def checkThreshold_def capture_def advance_def NR_OF_DUBS_def
        r_def w_def startRecording_def float_round_0)
  have r3: "run (hd overlong_take) l
      = Some (r, [(Finite 0, Finite 0), (Finite 0, Finite 0)])"
    using u wf(1) s by (simp add: run_def overlong_take_def block_def)
  have rf: "m_state r = LOOPER_STATE_RECORDING" "m_nrOfDubs r = 0" "m_nrOfUsedSamples r = 2"
    "m_dubs r 0 = \<lparr> m_storageOffset = 0, m_length = 721, m_startIndex = 0 \<rparr>"
    "m_storageSize r = 720"
    using wf by (simp_all add: r_def)
  \<comment> \<open>the stop: the fade reads the sample at index 720\<close>
  have "finishRecording (r\<lparr> m_threshold := Finite 0, m_dryAmount := Finite 0 \<rparr>) = None"
    using rf
    by (simp add: finishRecording_def NR_OF_DUBS_def NR_OF_BLEND_SAMPLES_def Let_def
        numeral_eq_Suc)
  then have r4: "run (hd (tl overlong_take)) r = None"
    using rf(1)
    by (simp add: overlong_take_def run_def updateParameters_def button_def block_def press_def
        activateCallback_def is_recording_def dbToFloat_floor)
  have o: "overlong_take = [hd overlong_take, hd (tl overlong_take)]"
    by (simp add: overlong_take_def)
  have "run_blocks (ones_take 719 @ [hd overlong_take]) (Looper_new 1 silence silence) = Some r"
    using l(1) r3 by (simp add: run_blocks_snoc)
  moreover have "run_blocks (ones_take 719 @ overlong_take) (Looper_new 1 silence silence) = None"
  proof -
    have "run_blocks ((ones_take 719 @ [hd overlong_take]) @ [hd (tl overlong_take)])
        (Looper_new 1 silence silence) = None"
      unfolding run_blocks_snoc[of "ones_take 719 @ [hd overlong_take]"]
      using \<open>run_blocks (ones_take 719 @ [hd overlong_take]) (Looper_new 1 silence silence) = Some r\<close> r4
      by simp
    then show ?thesis by (subst o) simp
  qed
  ultimately show ?thesis using rf by simp
qed

subsection \<open>Chained overdubs\<close>

lemma playback_in_bounds:
  assumes "\<forall>t\<in>set ts. t < NR_OF_DUBS
     \<and> m_storageOffset (m_dubs l t) + m_length (m_dubs l t) \<le> m_storageSize l"
  shows "\<exists>out'. playback ts l out = Some out'"
  using assms
proof (induction ts arbitrary: out)
  case Nil
  then show ?case by simp
next
  case (Cons t ts)
  from Cons.prems have t: "t < NR_OF_DUBS"
    "m_storageOffset (m_dubs l t) + m_length (m_dubs l t) \<le> m_storageSize l"
    and ts: "\<forall>t\<in>set ts. t < NR_OF_DUBS
     \<and> m_storageOffset (m_dubs l t) + m_length (m_dubs l t) \<le> m_storageSize l"
    by simp_all
  have i: "m_storageOffset (m_dubs l t) + (m_currentLoopIndex l - m_startIndex (m_dubs l t))
      < m_storageSize l"
    if "\<not> m_currentLoopIndex l < m_startIndex (m_dubs l t)"
      "\<not> m_startIndex (m_dubs l t) + m_length (m_dubs l t) \<le> m_currentLoopIndex l"
    using that t(2) by arith
  from Cons.IH[OF ts] t(1) i show ?case
    by (simp add: Let_def)
qed

lemma overdub_pair:
  assumes o: "overdubbing k l" and w: "slot_reserved l"
    and k: "1 \<le> k" "k < NR_OF_DUBS"
    and sz: "m_nrOfUsedSamples l + 2 < m_storageSize l"
    and nx: "\<not> nan_pair x"
  shows "\<exists>l' outs. run_samples [x, y] l = Some (l', outs)
     \<and> overdubbing (k + 1) l'
     \<and> m_nrOfUsedSamples l' = m_nrOfUsedSamples l + 2
     \<and> m_storageSize l' = m_storageSize l
     \<and> (k + 1 < NR_OF_DUBS \<longrightarrow> slot_reserved l')
     \<and> (k + 1 = NR_OF_DUBS \<longrightarrow> m_state l' = LOOPER_STATE_PLAYING)"
proof -
  define u where "u = m_nrOfUsedSamples l"
  from o have f: "m_nrOfDubs l = k" "m_maxUsedDubs l = k" "m_currentLoopIndex l = 0"
    "m_loopLength l = 1" "m_threshold l = Finite 0" "u + 1 = 2 * k"
    and v: "\<forall>t<k. m_storageOffset (m_dubs l t) + m_length (m_dubs l t) \<le> u"
    by (simp_all add: overdubbing_def dubs_in_arena_def u_def)
  from w f(1) have r: "m_state l = LOOPER_STATE_WAITING_FOR_THRESHOLD"
    "m_storageOffset (m_dubs l k) = u" "m_length (m_dubs l k) = 0"
    by (simp_all add: slot_reserved_def u_def)
  from sz have sz': "u + 2 < m_storageSize l" by (simp add: u_def)
  \<comment> \<open>the first sample: the threshold is met, the sample is recorded\<close>
  define l1 where "l1 = l\<lparr> m_dubs := (m_dubs l)(k := (m_dubs l k)\<lparr> m_startIndex := 0 \<rparr>),
      m_state := LOOPER_STATE_RECORDING \<rparr>"
  define l2 where "l2 = l1\<lparr> m_storage1 := (m_storage1 l1)(u := fst x),
      m_storage2 := (m_storage2 l1)(u := snd x),
      m_nrOfUsedSamples := u + 1,
      m_dubs := (m_dubs l1)(k := (m_dubs l1 k)\<lparr> m_length := 1 \<rparr>) \<rparr>"
  define l3 where "l3 = l2\<lparr> m_currentLoopIndex := 1 \<rparr>"
  from nx have mx: "fge (fabs (fst x)) (Finite 0) \<or> fge (fabs (snd x)) (Finite 0)"
    by (simp add: meets_floor[symmetric] meets_threshold_def)
  have c1: "checkThreshold x l = Some l1"
    using f r k mx by (simp add: checkThreshold_def l1_def)
  have c2: "capture x l1 = Some l2"
    using f r k sz' by (simp add: capture_def l1_def l2_def u_def)
  have b2: "\<forall>t\<in>set [0..<m_nrOfDubs l2]. t < NR_OF_DUBS
     \<and> m_storageOffset (m_dubs l2 t) + m_length (m_dubs l2 t) \<le> m_storageSize l2"
    using f(1) v k sz' by (auto simp: l2_def l1_def)
  from playback_in_bounds[OF b2] obtain out1 where
    p2: "playback [0..<m_nrOfDubs l2] l2
           (fmul (m_dryAmount l2) (fst x), fmul (m_dryAmount l2) (snd x)) = Some out1"
    by blast
  have a2: "advance l2 = Some l3"
    using f k sz' by (simp add: advance_def l3_def l2_def l1_def)
  have s1: "run_sample x l = Some (l3, out1)"
    by (simp add: run_sample_def c1 c2 p2 a2)
  \<comment> \<open>the second sample: recorded, the loop wraps, the take is finished and a new one started\<close>
  define l4 where "l4 = l3\<lparr> m_storage1 := (m_storage1 l3)(u + 1 := fst y),
      m_storage2 := (m_storage2 l3)(u + 1 := snd y),
      m_nrOfUsedSamples := u + 2,
      m_dubs := (m_dubs l3)(k := (m_dubs l3 k)\<lparr> m_length := Suc (Suc 0) \<rparr>) \<rparr>"
  define l5 where "l5 = l4\<lparr> m_currentLoopIndex := 0 \<rparr>"
  have c3: "checkThreshold y l3 = Some l3"
    by (simp add: checkThreshold_def l3_def l2_def l1_def)
  have c4: "capture y l3 = Some l4"
    using f k sz' by (simp add: capture_def l4_def l3_def l2_def l1_def)
  have b4: "\<forall>t\<in>set [0..<m_nrOfDubs l4]. t < NR_OF_DUBS
     \<and> m_storageOffset (m_dubs l4 t) + m_length (m_dubs l4 t) \<le> m_storageSize l4"
    using f(1) v k sz' by (auto simp: l4_def l3_def l2_def l1_def)
  from playback_in_bounds[OF b4] obtain out2 where
    p4: "playback [0..<m_nrOfDubs l4] l4
           (fmul (m_dryAmount l4) (fst y), fmul (m_dryAmount l4) (snd y)) = Some out2"
    by blast
  have h5: "m_state l5 \<noteq> LOOPER_STATE_WAITING_FOR_THRESHOLD" "m_nrOfDubs l5 < NR_OF_DUBS"
    "0 < m_length (current_dub l5)"
    "m_storageOffset (current_dub l5) + m_length (current_dub l5) \<le> m_storageSize l5"
    using f r k sz' by (simp_all add: current_dub_def l5_def l4_def l3_def l2_def l1_def)
  from finishRecording_fade[OF h5] obtain l6 where f6: "finishRecording l5 = Some l6"
    by blast
  from finishRecording_recording[OF f6 h5(1)] obtain a b where
    l6: "l6 = l5\<lparr> m_state := LOOPER_STATE_PLAYING,
        m_loopLength := (if m_nrOfDubs l5 = 0 then m_length (m_dubs l5 0) else m_loopLength l5),
        m_currentLoopIndex := (if m_nrOfDubs l5 = 0 then 0 else m_currentLoopIndex l5),
        m_storage1 := a, m_storage2 := b,
        m_nrOfDubs := m_nrOfDubs l5 + 1, m_maxUsedDubs := m_nrOfDubs l5 + 1 \<rparr>"
    by blast
  define l' where "l' = startRecording l6"
  have i4: "m_nrOfDubs l4 = k" "m_currentLoopIndex l4 = 1" "m_loopLength l4 = 1"
    "m_state l4 = LOOPER_STATE_RECORDING"
    using f by (simp_all add: l4_def l3_def l2_def l1_def)
  have n6: "m_nrOfDubs l6 = k + 1"
    using f by (simp add: l6 l5_def l4_def l3_def l2_def l1_def)
  have s5: "m_state l5 = LOOPER_STATE_RECORDING"
    using i4 by (simp add: l5_def)
  have a4: "advance l4 = Some l'"
    using k i4 n6 s5 f6
    by (simp add: advance_def l'_def l5_def[symmetric])
  have s2: "run_sample y l3 = Some (l', out2)"
    by (simp add: run_sample_def c3 c4 p4 a4)
  have run: "run_samples [x, y] l = Some (l', [out1, out2])"
    by (simp add: s1 s2)
  have g6: "m_nrOfDubs l6 = k + 1" "m_maxUsedDubs l6 = k + 1" "m_currentLoopIndex l6 = 0"
    "m_loopLength l6 = 1" "m_threshold l6 = Finite 0" "m_nrOfUsedSamples l6 = u + 2"
    "m_storageSize l6 = m_storageSize l" "m_state l6 = LOOPER_STATE_PLAYING"
    "m_dubs l6 = (m_dubs l)(k := (m_dubs l k)\<lparr> m_startIndex := 0, m_length := Suc (Suc 0) \<rparr>)"
    using f k by (simp_all add: l6 l5_def l4_def l3_def l2_def l1_def)
  have g': "m_nrOfDubs l' = k + 1" "m_maxUsedDubs l' = k + 1" "m_currentLoopIndex l' = 0"
    "m_loopLength l' = 1" "m_threshold l' = Finite 0" "m_nrOfUsedSamples l' = u + 2"
    "m_storageSize l' = m_storageSize l"
    "\<forall>t<k + 1. m_dubs l' t = m_dubs l6 t"
    using g6 by (auto simp: l'_def startRecording_def)
  have d': "dubs_in_arena l'"
    unfolding dubs_in_arena_def g'(1,6)
  proof (intro allI impI)
    fix t assume t: "t < k + 1"
    with g'(8) have e: "m_dubs l' t = m_dubs l6 t" by simp
    show "m_storageOffset (m_dubs l' t) + m_length (m_dubs l' t) \<le> u + 2"
    proof (cases "t = k")
      case True
      then show ?thesis unfolding e g6(9) using r(2) by simp
    next
      case False
      with t have "t < k" by simp
      with v have "m_storageOffset (m_dubs l t) + m_length (m_dubs l t) \<le> u" by simp
      with False show ?thesis unfolding e g6(9) by simp
    qed
  qed
  have o': "overdubbing (k + 1) l'"
    using g' d' f(6) by (simp add: overdubbing_def)
  have w': "slot_reserved l'" if "k + 1 < NR_OF_DUBS"
    using that g6 sz' by (simp add: slot_reserved_def l'_def startRecording_def)
  have p': "m_state l' = LOOPER_STATE_PLAYING" if "k + 1 = NR_OF_DUBS"
    using that g6 by (simp add: l'_def startRecording_def)
  from run o' g'(6,7) w' p' show ?thesis unfolding u_def by blast
qed

lemma overdub_chain:
  assumes "overdubbing k l" "slot_reserved l" "1 \<le> k" "k + j \<le> NR_OF_DUBS"
    "m_nrOfUsedSamples l + 2 * j < m_storageSize l" "\<not> nan_pair x"
  shows "\<exists>l' outs. run_samples (replicate (2 * j) x) l = Some (l', outs)
     \<and> overdubbing (k + j) l'
     \<and> m_nrOfUsedSamples l' = m_nrOfUsedSamples l + 2 * j
     \<and> m_storageSize l' = m_storageSize l
     \<and> (k + j < NR_OF_DUBS \<longrightarrow> slot_reserved l')
     \<and> (0 < j \<and> k + j = NR_OF_DUBS \<longrightarrow> m_state l' = LOOPER_STATE_PLAYING)"
  using assms
proof (induction j arbitrary: k l)
  case 0
  then show ?case by simp
next
  case (Suc j)
  from Suc.prems have k: "1 \<le> k" "k < NR_OF_DUBS"
    and sz: "m_nrOfUsedSamples l + 2 < m_storageSize l"
    by simp_all
  from overdub_pair[OF Suc.prems(1,2) k sz Suc.prems(6), of x] obtain l1 o1 where
    p: "run_samples [x, x] l = Some (l1, o1)" "overdubbing (k + 1) l1"
      "m_nrOfUsedSamples l1 = m_nrOfUsedSamples l + 2"
      "m_storageSize l1 = m_storageSize l"
      "k + 1 < NR_OF_DUBS \<longrightarrow> slot_reserved l1"
      "k + 1 = NR_OF_DUBS \<longrightarrow> m_state l1 = LOOPER_STATE_PLAYING"
    by blast
  have r: "replicate (2 * Suc j) x = [x, x] @ replicate (2 * j) x" by simp
  show ?case
  proof (cases "j = 0")
    case True
    have e: "replicate (2 * Suc j) x = [x, x]" unfolding r using True by simp
    from p True show ?thesis
      unfolding e by (intro exI[of _ l1] exI[of _ o1]) simp
  next
    case False
    with Suc.prems(4) have lt: "k + 1 < NR_OF_DUBS" by simp
    with p(5) have w1: "slot_reserved l1" by simp
    from Suc.prems(4,5) p(3,4) have q: "1 \<le> k + 1" "k + 1 + j \<le> NR_OF_DUBS"
      "m_nrOfUsedSamples l1 + 2 * j < m_storageSize l1"
      by simp_all
    from Suc.IH[OF p(2) w1 q Suc.prems(6)] obtain l' o2 where
      i: "run_samples (replicate (2 * j) x) l1 = Some (l', o2)"
        "overdubbing (k + 1 + j) l'"
        "m_nrOfUsedSamples l' = m_nrOfUsedSamples l1 + 2 * j"
        "m_storageSize l' = m_storageSize l1"
        "k + 1 + j < NR_OF_DUBS \<longrightarrow> slot_reserved l'"
        "0 < j \<and> k + 1 + j = NR_OF_DUBS \<longrightarrow> m_state l' = LOOPER_STATE_PLAYING"
      by blast
    from p(1) i(1) have "run_samples (replicate (2 * Suc j) x) l = Some (l', o1 @ o2)"
      unfolding r run_samples_append by simp
    with i(2-6) p(3,4) False show ?thesis
      by (intro exI[of _ l'] exI[of _ "o1 @ o2"]) simp
  qed
qed

lemma ledger_full:
  "\<exists>l. run_blocks overdub_until_full (Looper_new 48000 silence silence) = Some l
     \<and> m_state l = LOOPER_STATE_PLAYING \<and> overdubbing 128 l
     \<and> m_nrOfUsedSamples l = 255 \<and> m_storageSize l = 34560000"
proof -
  have sz: "m_storageSize (Looper_new 48000 silence silence) = 34560000"
    by (simp add: Looper_new_def STORAGE_MEMORY_SECONDS_def)
  \<comment> \<open>block 1: the first take, one sample\<close>
  have "fle (Finite (- 90)) (Finite (- 90))" "\<forall>n\<in>set []. nan_pair n"
    "\<not> nan_pair (Finite 1, Finite 1)"
    "length ([] @ [(Finite 1, Finite 1)]) < m_storageSize (Looper_new 48000 silence silence)"
    by (simp_all add: sz fle_def nan_pair_def)
  from fresh_records[OF this, of "Finite 0"] obtain R where
    R: "run ((block (Finite (- 90)) (Finite 0) [(Finite 1, Finite 1)])\<lparr> activateButton := press \<rparr>)
          (Looper_new 48000 silence silence)
        = Some (R, map (\<lambda>x. (fmul (Finite 0) (fst x), fmul (Finite 0) (snd x)))
                     [(Finite 1, Finite 1)])"
      "m_state R = LOOPER_STATE_RECORDING" "m_nrOfDubs R = 0" "m_nrOfUsedSamples R = 1"
      "m_dubs R 0 = \<lparr> m_storageOffset = 0, m_length = 1, m_startIndex = 0 \<rparr>"
      "m_storageSize R = 34560000" "m_currentLoopIndex R = 0"
    unfolding sz by auto
  \<comment> \<open>block 2: Dub finishes the take and starts the next one\<close>
  define R' where "R' = R\<lparr> m_threshold := dbToFloat (Finite (- 90)), m_dryAmount := Finite 0 \<rparr>"
  have h: "m_state R' \<noteq> LOOPER_STATE_WAITING_FOR_THRESHOLD" "m_nrOfDubs R' < NR_OF_DUBS"
    "0 < m_length (current_dub R')"
    "m_storageOffset (current_dub R') + m_length (current_dub R') \<le> m_storageSize R'"
    using R by (simp_all add: current_dub_def R'_def NR_OF_DUBS_def)
  from finishRecording_fade[OF h] obtain F where F: "finishRecording R' = Some F" by blast
  from finishRecording_recording[OF F h(1)] obtain a b where
    Fe: "F = R'\<lparr> m_state := LOOPER_STATE_PLAYING,
        m_loopLength := (if m_nrOfDubs R' = 0 then m_length (m_dubs R' 0) else m_loopLength R'),
        m_currentLoopIndex := (if m_nrOfDubs R' = 0 then 0 else m_currentLoopIndex R'),
        m_storage1 := a, m_storage2 := b,
        m_nrOfDubs := m_nrOfDubs R' + 1, m_maxUsedDubs := m_nrOfDubs R' + 1 \<rparr>"
    by blast
  define W where "W = startRecording F"
  have sR': "m_state R' = LOOPER_STATE_RECORDING" using R(2) by (simp add: R'_def)
  have u2: "updateParameters ((block (Finite (- 90)) (Finite 0) (replicate 254 (Finite 1, Finite 1)))\<lparr> dubButton := press \<rparr>) R
      = Some W"
    using sR' F
    by (simp add: updateParameters_def button_def block_def press_def dubCallback_def
        is_recording_def R'_def[symmetric] W_def)
  have Wf: "m_state W = LOOPER_STATE_WAITING_FOR_THRESHOLD" "m_nrOfDubs W = 1"
    "m_maxUsedDubs W = 1" "m_currentLoopIndex W = 0" "m_loopLength W = 1" "m_threshold W = Finite 0"
    "m_nrOfUsedSamples W = 1" "m_storageSize W = 34560000"
    "m_dubs W 0 = \<lparr> m_storageOffset = 0, m_length = 1, m_startIndex = 0 \<rparr>"
    "m_storageOffset (m_dubs W 1) = 1" "m_length (m_dubs W 1) = 0"
    using R by (simp_all add: W_def startRecording_def Fe R'_def NR_OF_DUBS_def dbToFloat_floor)
  have o: "overdubbing 1 W" "slot_reserved W"
    using Wf by (simp_all add: overdubbing_def dubs_in_arena_def slot_reserved_def)
  have q: "(1 :: nat) \<le> 1" "1 + 127 \<le> NR_OF_DUBS"
    "m_nrOfUsedSamples W + 2 * 127 < m_storageSize W"
    using Wf by (simp_all add: NR_OF_DUBS_def)
  have n: "(254 :: nat) = 2 * 127" by simp
  have nn: "\<not> nan_pair (Finite 1, Finite 1)" by (simp add: nan_pair_def)
  from overdub_chain[OF o q nn] obtain P outs where
    P: "run_samples (replicate 254 (Finite 1, Finite 1)) W = Some (P, outs)"
      "overdubbing 128 P" "m_nrOfUsedSamples P = 255" "m_storageSize P = 34560000"
      "m_state P = LOOPER_STATE_PLAYING"
    unfolding n using Wf by (auto simp: NR_OF_DUBS_def)
  have r2: "run ((block (Finite (- 90)) (Finite 0) (replicate 254 (Finite 1, Finite 1)))\<lparr> dubButton := press \<rparr>) R
      = Some (P, outs)"
    using u2 Wf(1) P(1) by (simp add: run_def block_def)
  have "run_blocks overdub_until_full (Looper_new 48000 silence silence) = Some P"
    using R(1) r2 by (simp add: overdub_until_full_def)
  with P(2-5) show ?thesis by blast
qed

lemma ledger_filled:
  "\<exists>l. run_blocks fill_ledger (Looper_new 48000 silence silence) = Some l
     \<and> m_state l = LOOPER_STATE_PLAYING \<and> m_nrOfDubs l = 127 \<and> m_maxUsedDubs l = 128
     \<and> m_nrOfUsedSamples l \<le> 255 \<and> m_storageSize l = 34560000"
proof -
  from ledger_full obtain P where
    P: "run_blocks overdub_until_full (Looper_new 48000 silence silence) = Some P"
      "overdubbing 128 P" "m_nrOfUsedSamples P = 255" "m_storageSize P = 34560000"
      "m_state P = LOOPER_STATE_PLAYING"
    by blast
  from P(2) have Pn: "m_nrOfDubs P = 128" "m_maxUsedDubs P = 128"
    and Pv: "\<forall>t<m_nrOfDubs P.
        m_storageOffset (m_dubs P t) + m_length (m_dubs P t) \<le> m_nrOfUsedSamples P"
    unfolding overdubbing_def dubs_in_arena_def by blast+
  from Pv[rule_format, of 127] Pn(1)
  have "m_storageOffset (m_dubs P 127) + m_length (m_dubs P 127) \<le> m_nrOfUsedSamples P"
    by simp
  note Pf = Pn this
  define U where "U = P\<lparr> m_threshold := dbToFloat (Finite (- 90)), m_dryAmount := Finite 0,
      m_nrOfDubs := 127, m_nrOfUsedSamples := m_storageOffset (m_dubs P 127) \<rparr>"
  have u3: "updateParameters ((block (Finite (- 90)) (Finite 0) [])\<lparr> undoButton := press \<rparr>) P = Some U"
    using P(5) Pf
    by (simp add: updateParameters_def button_def block_def press_def undoCallback_def
        undo_def NR_OF_DUBS_def U_def)
  have r3: "run ((block (Finite (- 90)) (Finite 0) [])\<lparr> undoButton := press \<rparr>) P = Some (U, [])"
    using u3 P(5) by (simp add: run_def block_def U_def)
  have "run_blocks fill_ledger (Looper_new 48000 silence silence) = Some U"
    using P(1) r3 by (simp add: fill_ledger_def run_blocks_snoc)
  moreover have "m_state U = LOOPER_STATE_PLAYING" "m_nrOfDubs U = 127" "m_maxUsedDubs U = 128"
    "m_nrOfUsedSamples U \<le> 255" "m_storageSize U = 34560000"
    using P(3,4,5) Pf by (simp_all add: U_def)
  ultimately show ?thesis by blast
qed

subsection \<open>What undo does\<close>

text \<open>
  In the state \<open>RECORDING\<close> the take is finished first and the undo is that of the state
  after the finish: the finished take is slot \<open>m_nrOfDubs\<close>, it is deactivated at once,
  and \<open>m_maxUsedDubs\<close> is one above \<open>m_nrOfDubs\<close>, so that it can be redone. In every
  other state, \<open>WAITING_FOR_THRESHOLD\<close> among them, the state is kept: with no active dub
  the engine is unchanged; with \<open>0 < m_nrOfDubs \<le> NR_OF_DUBS\<close> the count is decremented,
  \<open>m_nrOfUsedSamples\<close> becomes the storage offset of the deactivated slot, loop length and
  loop position are cleared when no dub is left and kept otherwise, and every other
  member (\<open>m_maxUsedDubs\<close> among them) is as before.
\<close>

lemma undo_cases:
  "(m_state l = LOOPER_STATE_RECORDING \<longrightarrow> undo l = finishRecording l \<bind> undo)
   \<and> (m_state l = LOOPER_STATE_RECORDING \<longrightarrow>
        (\<forall>l'. undo l = Some l' \<longrightarrow>
           m_nrOfDubs l' = m_nrOfDubs l \<and> m_maxUsedDubs l' = m_nrOfDubs l + 1
           \<and> m_nrOfUsedSamples l' = m_storageOffset (m_dubs l (m_nrOfDubs l))))
   \<and> (m_state l \<noteq> LOOPER_STATE_RECORDING \<and> m_nrOfDubs l = 0 \<longrightarrow> undo l = Some l)
   \<and> (m_state l \<noteq> LOOPER_STATE_RECORDING \<and> 0 < m_nrOfDubs l \<and> m_nrOfDubs l \<le> NR_OF_DUBS \<longrightarrow>
        undo l = Some (l\<lparr> m_nrOfDubs := m_nrOfDubs l - 1,
                           m_nrOfUsedSamples := m_storageOffset (m_dubs l (m_nrOfDubs l - 1)),
                           m_loopLength := (if m_nrOfDubs l = 1 then 0 else m_loopLength l),
                           m_currentLoopIndex :=
                             (if m_nrOfDubs l = 1 then 0 else m_currentLoopIndex l) \<rparr>))"
proof -
  have p1: "undo l = finishRecording l \<bind> undo" if r: "m_state l = LOOPER_STATE_RECORDING"
  proof (cases "finishRecording l")
    case None
    with r show ?thesis by (simp add: undo_def)
  next
    case (Some l1)
    from r have "m_state l \<noteq> LOOPER_STATE_WAITING_FOR_THRESHOLD" by simp
    from finishRecording_recording[OF Some this] have "m_state l1 = LOOPER_STATE_PLAYING"
      by auto
    with r Some show ?thesis by (simp add: undo_def)
  qed
  have p2: "m_nrOfDubs l' = m_nrOfDubs l \<and> m_maxUsedDubs l' = m_nrOfDubs l + 1
           \<and> m_nrOfUsedSamples l' = m_storageOffset (m_dubs l (m_nrOfDubs l))"
    if r: "m_state l = LOOPER_STATE_RECORDING" and u: "undo l = Some l'" for l'
  proof -
  from r u obtain l1 where f: "finishRecording l = Some l1"
    by (auto simp: undo_def split: bind_splits)
  from r have nw: "m_state l \<noteq> LOOPER_STATE_WAITING_FOR_THRESHOLD" by simp
  from finishRecording_recording[OF f nw]
  have l1f: "m_nrOfDubs l1 = m_nrOfDubs l + 1" "m_maxUsedDubs l1 = m_nrOfDubs l + 1"
    "m_dubs l1 = m_dubs l" "m_nrOfDubs l < NR_OF_DUBS"
    by auto
  from r u f l1f
  show ?thesis
    by (auto simp: undo_def Let_def split: if_splits)
  qed
  have p3: "undo l = Some l" if "m_state l \<noteq> LOOPER_STATE_RECORDING \<and> m_nrOfDubs l = 0"
    using that by (simp add: undo_def)
  have p4: "undo l = Some (l\<lparr> m_nrOfDubs := m_nrOfDubs l - 1,
                           m_nrOfUsedSamples := m_storageOffset (m_dubs l (m_nrOfDubs l - 1)),
                           m_loopLength := (if m_nrOfDubs l = 1 then 0 else m_loopLength l),
                           m_currentLoopIndex :=
                             (if m_nrOfDubs l = 1 then 0 else m_currentLoopIndex l) \<rparr>)"
    if a: "m_state l \<noteq> LOOPER_STATE_RECORDING \<and> 0 < m_nrOfDubs l \<and> m_nrOfDubs l \<le> NR_OF_DUBS"
  proof -
    from a have "m_nrOfDubs l - 1 < NR_OF_DUBS" by arith
    with a show ?thesis
      by (cases l) (auto simp: undo_def Let_def)
  qed
  from p1 p2 p3 p4 show ?thesis by blast
qed

section \<open>The claims of the specification\<close>

subsection \<open>C1: range of the loop position\<close>

text \<open>
  C1 (the loop position stays below the loop length). The comparison that wraps the
  position is \<open>m_currentLoopIndex > m_loopLength\<close>: after a first take of two samples and
  two samples of playback the engine plays one dub, the loop length is 2 and the loop
  position is 2 as well. (The position never exceeds the loop length:
  \<open>reachable_index_le\<close>.)
\<close>

theorem loop_position_reaches_loop_length:
  "map_option (\<lambda>l. (m_state l, m_nrOfDubs l, m_loopLength l, m_currentLoopIndex l))
     (run_blocks two_sample_loop (Looper_new 48000 silence silence))
   = Some (LOOPER_STATE_PLAYING, 1, 2, 2)"
  by (simp add: engine_defs two_sample_loop_def)

subsection \<open>C2: the fade at the ends of a take\<close>




subsection \<open>C3: undo followed by redo\<close>

text \<open>
  C3 (undo followed by redo restores the counters). A first take of two samples is
  recorded and stopped, a second take is started and, while it waits for the threshold,
  Undo is pressed: \<open>undo\<close> only looks for the state \<open>RECORDING\<close>, so the engine keeps
  waiting with no active dub, and the next loud sample is recorded into slot 0 on top of
  its old length. After the stop, one dub of length 3 plays and one sample is in use.
  Undo followed by Redo gives back the dub count, the loop length and the loop position,
  but three samples are in use.
\<close>

theorem undo_redo_changes_used_samples:
  "map_option (\<lambda>l. (m_state l, m_nrOfDubs l, m_loopLength l, m_currentLoopIndex l,
        m_nrOfUsedSamples l))
     (run_blocks undo_while_waiting (Looper_new 48000 silence silence))
   = Some (LOOPER_STATE_PLAYING, 1, 3, 0, 1)
   \<and> map_option (\<lambda>l. (m_state l, m_nrOfDubs l, m_loopLength l, m_currentLoopIndex l,
        m_nrOfUsedSamples l))
     (run_blocks (undo_while_waiting @ undo_then_redo) (Looper_new 48000 silence silence))
   = Some (LOOPER_STATE_PLAYING, 1, 3, 0, 3)"
  by (simp add: engine_defs undo_while_waiting_def undo_then_redo_def)

subsection \<open>C4: redo after a new start\<close>

text \<open>
  C4 (after an undo, a start makes redo a no-op). \<open>startRecording\<close> leaves
  \<open>m_maxUsedDubs\<close> alone and \<open>redo\<close> only refuses in the state \<open>RECORDING\<close>: while the new
  take waits for the threshold, a press of Redo activates the slot that the start has
  just reset, and the engine goes from no active dub to one (of length 0).
\<close>

theorem redo_after_undo_and_start:
  "map_option (\<lambda>l. (m_state l, m_nrOfDubs l, m_maxUsedDubs l, m_loopLength l))
     (run_blocks undo_then_start (Looper_new 48000 silence silence))
   = Some (LOOPER_STATE_WAITING_FOR_THRESHOLD, 0, 1, 0)
   \<and> map_option (\<lambda>l. (m_state l, m_nrOfDubs l, m_maxUsedDubs l, m_loopLength l))
     (run_blocks (undo_then_start @ [(block (Finite 0) (Finite 1) [(Finite 0, Finite 0)])\<lparr> redoButton := press \<rparr>])
        (Looper_new 48000 silence silence))
   = Some (LOOPER_STATE_WAITING_FOR_THRESHOLD, 1, 1, 0)"
  by (simp add: engine_defs undo_then_start_def)

subsection \<open>C5: undo\<close>

text \<open>
  C5 (Undo finishes a take in progress first). \<open>undo\<close> looks for the state \<open>RECORDING\<close>
  only. After a first loop of two samples a second take is started and waits for the
  threshold: one dub is active. A press of Undo then deactivates that dub and clears the
  loop length, and the take is still in progress: the engine keeps waiting for the
  threshold, where the callbacks of Activate, Reset and Dub finish a take in either
  state.
\<close>

theorem undo_keeps_waiting_take:
  "map_option (\<lambda>l. (m_state l, is_recording l, m_nrOfDubs l, m_maxUsedDubs l, m_loopLength l))
     (run_blocks waiting_take (Looper_new 48000 silence silence))
   = Some (LOOPER_STATE_WAITING_FOR_THRESHOLD, True, 1, 1, 2)
   \<and> map_option (\<lambda>l. (m_state l, is_recording l, m_nrOfDubs l, m_maxUsedDubs l, m_loopLength l))
     (run_blocks (waiting_take @ [undo_pressed]) (Looper_new 48000 silence silence))
   = Some (LOOPER_STATE_WAITING_FOR_THRESHOLD, True, 0, 1, 0)"
  by (simp add: engine_defs waiting_take_def undo_pressed_def)

subsection \<open>C6: a rejected start\<close>

text \<open>
  C6 (a start on a full ledger or an exhausted arena changes nothing). With
  \<open>m_nrOfDubs \<ge> NR_OF_DUBS\<close> or \<open>m_nrOfUsedSamples \<ge> m_storageSize\<close>, \<open>startRecording\<close>
  returns the engine as it is, and so do a press of Activate and a press of Dub when no
  take is in progress.
\<close>

theorem start_rejected_unchanged:
  "(m_nrOfDubs l \<ge> NR_OF_DUBS \<or> m_nrOfUsedSamples l \<ge> m_storageSize l) \<longrightarrow>
     startRecording l = l
     \<and> (\<not> is_recording l \<longrightarrow> activateCallback True False l = Some l)
     \<and> (\<not> is_recording l \<longrightarrow> dubCallback True False l = Some l)"
  by (auto simp: startRecording_def activateCallback_def dubCallback_def)

text \<open>
  C6 at the engine whose 128 slots have been filled by chained overdubs.
\<close>

theorem start_rejected_unchanged_witness:
  "map_option (\<lambda>l. m_nrOfDubs l \<ge> NR_OF_DUBS \<and> \<not> is_recording l
       \<and> startRecording l = l
       \<and> activateCallback True False l = Some l
       \<and> dubCallback True False l = Some l)
     (run_blocks overdub_until_full (Looper_new 48000 silence silence)) = Some True"
proof -
  from ledger_full obtain l where
    l: "run_blocks overdub_until_full (Looper_new 48000 silence silence) = Some l"
      "m_state l = LOOPER_STATE_PLAYING" "overdubbing 128 l"
    by blast
  from l(3) have n: "m_nrOfDubs l = 128" by (simp add: overdubbing_def)
  from l(2) n have h: "m_nrOfDubs l \<ge> NR_OF_DUBS" "\<not> is_recording l"
    by (simp_all add: NR_OF_DUBS_def is_recording_def)
  with start_rejected_unchanged[of l] l(1) show ?thesis by simp
qed

subsection \<open>C7: the loop length\<close>

text \<open>
  C7 (the loop length is fixed by the first take and restored when the first track is
  redone). A first take of two samples fixes a loop length of 2. The take is undone, a
  new take is started, which resets slot 0, and given up while it waits for the
  threshold: \<open>m_maxUsedDubs\<close> is still 1. A press of Redo then activates slot 0 with its
  length of 0: the first track is redone and the loop length is 0, not 2.
\<close>

theorem redo_restores_no_loop_length:
  "map_option (\<lambda>l. (m_state l, m_nrOfDubs l, m_maxUsedDubs l, m_loopLength l))
     (run_blocks first_loop (Looper_new 48000 silence silence))
   = Some (LOOPER_STATE_PLAYING, 1, 1, 2)
   \<and> map_option (\<lambda>l. (m_state l, m_nrOfDubs l, m_maxUsedDubs l, m_loopLength l))
     (run_blocks (first_loop @ abandon_and_redo) (Looper_new 48000 silence silence))
   = Some (LOOPER_STATE_INACTIVE, 1, 1, 0)"
  by (simp add: engine_defs first_loop_def abandon_and_redo_def)

subsection \<open>C8: threshold gating\<close>

text \<open>
  C8, as the code has it. The threshold is computed in single precision: it is 0 for a
  parameter at or below -90 dB, and \<open>powf(10, dB * 0.05f)\<close> above. The peak of a pair of
  samples is the larger of the two magnitudes, a NaN being ignored; a pair does not meet
  the threshold when its peak is strictly below it, when both samples are NaN, or when
  the threshold is NaN. While the engine waits for the threshold, a run of samples none
  of which meets it leaves the state, the used samples, the slots and the arena as they
  are. A sample that meets the threshold switches to \<open>RECORDING\<close>, stores the loop
  position as the start index of the reserved slot, and is recorded: the count of used
  samples grows by one. On a new engine, a press of Activate followed by samples that do
  not meet the threshold leaves the engine waiting with nothing used and a reserved
  track of length 0; with the threshold parameter at or below -90 dB, recording begins
  with the first sample that is not NaN on both channels, and every sample from that one
  on is recorded.
\<close>

theorem threshold_gating:
  "(fle db (Finite (- 90)) \<longrightarrow> dbToFloat db = Finite 0)
   \<and> (- 90 < d \<longrightarrow>
        dbToFloat (Finite d) = powf 10 (float_round (d * (13421773 / 268435456))))
   \<and> (\<not> fge (spec_peak x) t \<longleftrightarrow> flt (spec_peak x) t \<or> nan_pair x \<or> t = NaN)
   \<and> (m_state l = LOOPER_STATE_WAITING_FOR_THRESHOLD
        \<and> (\<forall>x\<in>set xs. \<not> fge (spec_peak x) (m_threshold l)) \<longrightarrow>
        (\<forall>l' outs. run_samples xs l = Some (l', outs) \<longrightarrow>
           m_state l' = LOOPER_STATE_WAITING_FOR_THRESHOLD
           \<and> m_nrOfUsedSamples l' = m_nrOfUsedSamples l
           \<and> m_nrOfDubs l' = m_nrOfDubs l \<and> m_dubs l' = m_dubs l
           \<and> m_storage1 l' = m_storage1 l \<and> m_storage2 l' = m_storage2 l))
   \<and> (m_state l = LOOPER_STATE_WAITING_FOR_THRESHOLD
        \<and> fge (spec_peak y) (m_threshold l) \<longrightarrow>
        (\<forall>l1. checkThreshold y l = Some l1 \<longrightarrow>
           m_state l1 = LOOPER_STATE_RECORDING
           \<and> m_startIndex (m_dubs l1 (m_nrOfDubs l)) = m_currentLoopIndex l)
        \<and> (\<forall>l' out. run_sample y l = Some (l', out) \<longrightarrow>
             m_nrOfUsedSamples l' = m_nrOfUsedSamples l + 1))
   \<and> (0 < m_storageSize (Looper_new r m1 m2)
        \<and> (\<forall>x\<in>set ins. \<not> fge (spec_peak x) (dbToFloat dw)) \<longrightarrow>
        (\<exists>l'. run ((block dw dry ins)\<lparr> activateButton := press \<rparr>) (Looper_new r m1 m2)
            = Some (l', map (\<lambda>x. (fmul dry (fst x), fmul dry (snd x))) ins)
          \<and> m_state l' = LOOPER_STATE_WAITING_FOR_THRESHOLD
          \<and> m_nrOfUsedSamples l' = 0 \<and> m_length (m_dubs l' 0) = 0))
   \<and> (fle df (Finite (- 90)) \<and> (\<forall>n\<in>set ns. nan_pair n) \<and> \<not> nan_pair z
        \<and> length (ns @ z # zs) < m_storageSize (Looper_new r m1 m2) \<longrightarrow>
        (\<exists>l'. run ((block df dry (ns @ z # zs))\<lparr> activateButton := press \<rparr>) (Looper_new r m1 m2)
            = Some (l', map (\<lambda>x. (fmul dry (fst x), fmul dry (snd x))) (ns @ z # zs))
          \<and> m_state l' = LOOPER_STATE_RECORDING
          \<and> m_nrOfUsedSamples l' = length (z # zs)
          \<and> m_dubs l' 0
              = \<lparr> m_storageOffset = 0, m_length = length (z # zs), m_startIndex = 0 \<rparr>
          \<and> (\<forall>i<length (z # zs). m_storage1 l' i = fst ((z # zs) ! i)
                \<and> m_storage2 l' i = snd ((z # zs) ! i))))"
proof -
  have p0: "dbToFloat db = Finite 0" if "fle db (Finite (- 90))"
    using that by (rule dbToFloat_cases)
  have p1: "dbToFloat (Finite d) = powf 10 (float_round (d * (13421773 / 268435456)))"
    if "- 90 < d"
    using that by (simp add: dbToFloat_Finite)
  have pp: "\<not> fge (spec_peak x) t \<longleftrightarrow> flt (spec_peak x) t \<or> nan_pair x \<or> t = NaN"
    by (simp add: not_fge_iff spec_peak_NaN)
  have p2: "m_state l' = LOOPER_STATE_WAITING_FOR_THRESHOLD
           \<and> m_nrOfUsedSamples l' = m_nrOfUsedSamples l
           \<and> m_nrOfDubs l' = m_nrOfDubs l \<and> m_dubs l' = m_dubs l
           \<and> m_storage1 l' = m_storage1 l \<and> m_storage2 l' = m_storage2 l"
    if a: "m_state l = LOOPER_STATE_WAITING_FOR_THRESHOLD
        \<and> (\<forall>x\<in>set xs. \<not> fge (spec_peak x) (m_threshold l))"
      and b: "run_samples xs l = Some (l', outs)" for l' outs
  proof -
    from a have a1: "m_state l = LOOPER_STATE_WAITING_FOR_THRESHOLD"
      and a2: "\<forall>x\<in>set xs. \<not> meets_threshold x (m_threshold l)"
      by (simp_all add: meets_threshold_peak)
    from waiting_samples[OF a1 a2 b]
    have "l' = l\<lparr> m_currentLoopIndex := m_currentLoopIndex l' \<rparr>" .
    then have "m_state l' = m_state l \<and> m_nrOfUsedSamples l' = m_nrOfUsedSamples l
           \<and> m_nrOfDubs l' = m_nrOfDubs l \<and> m_dubs l' = m_dubs l
           \<and> m_storage1 l' = m_storage1 l \<and> m_storage2 l' = m_storage2 l"
      by (cases l; cases l') simp
    with a1 show ?thesis by simp
  qed
  have p3: "m_state l1 = LOOPER_STATE_RECORDING
           \<and> m_startIndex (m_dubs l1 (m_nrOfDubs l)) = m_currentLoopIndex l"
    if "m_state l = LOOPER_STATE_WAITING_FOR_THRESHOLD
        \<and> fge (spec_peak y) (m_threshold l)" "checkThreshold y l = Some l1" for l1
    using crossing_records(1)[of l y l1] that by (simp add: meets_threshold_peak)
  have p4: "m_nrOfUsedSamples l' = m_nrOfUsedSamples l + 1"
    if "m_state l = LOOPER_STATE_WAITING_FOR_THRESHOLD
        \<and> fge (spec_peak y) (m_threshold l)" "run_sample y l = Some (l', out)" for l' out
    using crossing_records(2)[of l y l' out] that by (simp add: meets_threshold_peak)
  have p5: "\<exists>l'. run ((block dw dry ins)\<lparr> activateButton := press \<rparr>) (Looper_new r m1 m2)
            = Some (l', map (\<lambda>x. (fmul dry (fst x), fmul dry (snd x))) ins)
          \<and> m_state l' = LOOPER_STATE_WAITING_FOR_THRESHOLD
          \<and> m_nrOfUsedSamples l' = 0 \<and> m_length (m_dubs l' 0) = 0"
    if "0 < m_storageSize (Looper_new r m1 m2)
        \<and> (\<forall>x\<in>set ins. \<not> fge (spec_peak x) (dbToFloat dw))"
    using fresh_waits[of r m1 m2 ins dw dry] that
    by (simp add: Looper_new_def meets_threshold_peak)
  have p6: "\<exists>l'. run ((block df dry (ns @ z # zs))\<lparr> activateButton := press \<rparr>) (Looper_new r m1 m2)
            = Some (l', map (\<lambda>x. (fmul dry (fst x), fmul dry (snd x))) (ns @ z # zs))
          \<and> m_state l' = LOOPER_STATE_RECORDING
          \<and> m_nrOfUsedSamples l' = length (z # zs)
          \<and> m_dubs l' 0
              = \<lparr> m_storageOffset = 0, m_length = length (z # zs), m_startIndex = 0 \<rparr>
          \<and> (\<forall>i<length (z # zs). m_storage1 l' i = fst ((z # zs) ! i)
                \<and> m_storage2 l' i = snd ((z # zs) ! i))"
    if a: "fle df (Finite (- 90)) \<and> (\<forall>n\<in>set ns. nan_pair n) \<and> \<not> nan_pair z
        \<and> length (ns @ z # zs) < m_storageSize (Looper_new r m1 m2)"
  proof -
    from a have "fle df (Finite (- 90))" "\<forall>n\<in>set ns. nan_pair n" "\<not> nan_pair z"
      "length (ns @ z # zs) < m_storageSize (Looper_new r m1 m2)"
      by simp_all
    from fresh_records[OF this, of dry] obtain l' where
      l': "run ((block df dry (ns @ z # zs))\<lparr> activateButton := press \<rparr>) (Looper_new r m1 m2)
        = Some (l', map (\<lambda>x. (fmul dry (fst x), fmul dry (snd x))) (ns @ z # zs))"
      "m_state l' = LOOPER_STATE_RECORDING"
      "m_nrOfUsedSamples l' = length (z # zs)"
      "m_dubs l' 0 = \<lparr> m_storageOffset = 0, m_length = length (z # zs), m_startIndex = 0 \<rparr>"
      "m_storage1 l' = store_samples m1 0 (map fst (z # zs))"
      "m_storage2 l' = store_samples m2 0 (map snd (z # zs))"
      by blast
    have g: "store_samples m1 0 (map fst vs) i = fst (vs ! i)
          \<and> store_samples m2 0 (map snd vs) i = snd (vs ! i)"
      if "i < length vs" for i and vs :: "(float \<times> float) list"
      using that by (simp add: store_samples_nth)
    have "\<forall>i<length (z # zs). m_storage1 l' i = fst ((z # zs) ! i)
        \<and> m_storage2 l' i = snd ((z # zs) ! i)"
      unfolding l'(5,6) using g[of _ "z # zs"] by blast
    with l'(1-4) show ?thesis by blast
  qed
  from p0 p1 pp p2 p3 p4 p5 p6 show ?thesis by blast
qed

text \<open>
  C8 at a waiting engine (threshold 0 dB, a silent and a full scale sample) and at a new
  engine with the threshold at 0 dB, and at -90 dB with one pair of NaN before a sample
  at full scale.
\<close>

theorem threshold_gating_witness:
  "fle (Finite (- 90)) (Finite (- 90)) \<and> dbToFloat (Finite (- 90)) = Finite 0
   \<and> (- 90 :: real) < 0 \<and> dbToFloat (Finite 0) = Finite 1
   \<and> flt (spec_peak (Finite 0, Finite 0)) (Finite 1)
   \<and> map_option (\<lambda>l. m_state l = LOOPER_STATE_WAITING_FOR_THRESHOLD
       \<and> \<not> fge (spec_peak (Finite 0, Finite 0)) (m_threshold l)
       \<and> fge (spec_peak (Finite 1, Finite 1)) (m_threshold l)
       \<and> map_option (\<lambda>k. (m_state (fst k), m_nrOfUsedSamples (fst k) = m_nrOfUsedSamples l))
            (run_samples [(Finite 0, Finite 0)] l) = Some (LOOPER_STATE_WAITING_FOR_THRESHOLD, True)
       \<and> map_option (\<lambda>k. m_nrOfUsedSamples (fst k) = m_nrOfUsedSamples l + 1)
            (run_sample (Finite 1, Finite 1) l) = Some True)
     (run_blocks undo_then_start (Looper_new 48000 silence silence)) = Some True
   \<and> 0 < m_storageSize (Looper_new 48000 silence silence)
   \<and> \<not> fge (spec_peak (Finite 0, Finite 0)) (dbToFloat (Finite 0))
   \<and> map_option (\<lambda>k. (m_state (fst k), m_nrOfUsedSamples (fst k), m_length (m_dubs (fst k) 0)))
        (run ((block (Finite 0) (Finite 1) [(Finite 0, Finite 0)])\<lparr> activateButton := press \<rparr>)
           (Looper_new 48000 silence silence))
      = Some (LOOPER_STATE_WAITING_FOR_THRESHOLD, 0, 0)
   \<and> nan_pair (NaN, NaN) \<and> \<not> nan_pair (Finite 1, Finite 1)
   \<and> length ([(NaN, NaN)] @ [(Finite 1, Finite 1)]) < m_storageSize (Looper_new 48000 silence silence)
   \<and> map_option (\<lambda>k. (m_state (fst k), m_nrOfUsedSamples (fst k), m_storage1 (fst k) 0))
        (run ((block (Finite (- 90)) (Finite 1) [(NaN, NaN), (Finite 1, Finite 1)])
                \<lparr> activateButton := press \<rparr>)
           (Looper_new 48000 silence silence))
      = Some (LOOPER_STATE_RECORDING, 1, Finite 1)"
proof -
  define W where "W = the (run_blocks undo_then_start (Looper_new 48000 silence silence))"
  note t = threshold_gating[where db = "Finite (- 90)" and d = 0
      and x = "(Finite 0, Finite 0)" and t = "Finite 1" and l = W
      and xs = "[(Finite 0, Finite 0)]" and y = "(Finite 1, Finite 1)"
      and r = 48000 and ?m1.0 = silence and ?m2.0 = silence
      and ins = "[(Finite 0, Finite 0)]" and dw = "Finite 0" and dry = "Finite 1"
      and df = "Finite (- 90)" and ns = "[(NaN, NaN)]" and z = "(Finite 1, Finite 1)" and zs = "[]"]
  have sz: "m_storageSize (Looper_new 48000 silence silence) = 34560000"
    by (simp add: Looper_new_def STORAGE_MEMORY_SECONDS_def)
  have W: "run_blocks undo_then_start (Looper_new 48000 silence silence) = Some W"
    "m_state W = LOOPER_STATE_WAITING_FOR_THRESHOLD" "m_threshold W = Finite 1"
    by (simp_all add: W_def engine_defs undo_then_start_def)
  have pk: "spec_peak (Finite 0, Finite 0) = Finite 0" "spec_peak (Finite 1, Finite 1) = Finite 1"
    by (simp_all add: spec_peak_def)
  have h4: "m_state W = LOOPER_STATE_WAITING_FOR_THRESHOLD
        \<and> (\<forall>x\<in>set [(Finite 0, Finite 0)]. \<not> fge (spec_peak x) (m_threshold W))"
    by (simp add: W pk)
  have h5: "m_state W = LOOPER_STATE_WAITING_FOR_THRESHOLD
        \<and> fge (spec_peak (Finite 1, Finite 1)) (m_threshold W)"
    by (simp add: W pk)
  have h6: "0 < m_storageSize (Looper_new 48000 silence silence)
        \<and> (\<forall>x\<in>set [(Finite 0, Finite 0)]. \<not> fge (spec_peak x) (dbToFloat (Finite 0)))"
    by (simp add: sz pk dbToFloat_0)
  have h7: "fle (Finite (- 90)) (Finite (- 90)) \<and> (\<forall>n\<in>set [(NaN, NaN)]. nan_pair n)
        \<and> \<not> nan_pair (Finite 1, Finite 1)
        \<and> length ([(NaN, NaN)] @ (Finite 1, Finite 1) # [])
            < m_storageSize (Looper_new 48000 silence silence)"
    by (simp add: sz fle_def nan_pair_def)
  from t have c0: "dbToFloat (Finite (- 90)) = Finite 0"
    by (simp add: fle_def)
  from t have c1: "dbToFloat (Finite 0) = powf 10 (float_round (0 * (13421773 / 268435456)))"
    by simp
  from t h4 have c4: "\<forall>l' outs. run_samples [(Finite 0, Finite 0)] W = Some (l', outs) \<longrightarrow>
           m_state l' = LOOPER_STATE_WAITING_FOR_THRESHOLD
           \<and> m_nrOfUsedSamples l' = m_nrOfUsedSamples W"
    by blast
  from t h5 have c5: "\<forall>l' out. run_sample (Finite 1, Finite 1) W = Some (l', out) \<longrightarrow>
             m_nrOfUsedSamples l' = m_nrOfUsedSamples W + 1"
    by blast
  from t h6 obtain l6 where c6:
    "run ((block (Finite 0) (Finite 1) [(Finite 0, Finite 0)])\<lparr> activateButton := press \<rparr>)
        (Looper_new 48000 silence silence)
      = Some (l6, map (\<lambda>x. (fmul (Finite 1) (fst x), fmul (Finite 1) (snd x))) [(Finite 0, Finite 0)])
     \<and> m_state l6 = LOOPER_STATE_WAITING_FOR_THRESHOLD
     \<and> m_nrOfUsedSamples l6 = 0 \<and> m_length (m_dubs l6 0) = 0"
    by blast
  from t h7 obtain l7 where c7:
    "run ((block (Finite (- 90)) (Finite 1) ([(NaN, NaN)] @ (Finite 1, Finite 1) # []))
            \<lparr> activateButton := press \<rparr>)
        (Looper_new 48000 silence silence)
      = Some (l7, map (\<lambda>x. (fmul (Finite 1) (fst x), fmul (Finite 1) (snd x)))
                    ([(NaN, NaN)] @ (Finite 1, Finite 1) # []))
     \<and> m_state l7 = LOOPER_STATE_RECORDING
     \<and> m_nrOfUsedSamples l7 = length ((Finite 1, Finite 1) # [])
     \<and> m_dubs l7 0 = \<lparr> m_storageOffset = 0, m_length = length ((Finite 1, Finite 1) # []),
           m_startIndex = 0 \<rparr>
     \<and> (\<forall>i<length ((Finite 1, Finite 1) # []).
           m_storage1 l7 i = fst (((Finite 1, Finite 1) # []) ! i)
         \<and> m_storage2 l7 i = snd (((Finite 1, Finite 1) # []) ! i))"
    by blast
  have e4: "\<exists>k. run_samples [(Finite 0, Finite 0)] W = Some k"
    by (simp add: W_def engine_defs undo_then_start_def)
  have e5: "\<exists>k. run_sample (Finite 1, Finite 1) W = Some k"
    by (simp add: W_def engine_defs undo_then_start_def)
  from e4 c4 have r4: "map_option (\<lambda>k. (m_state (fst k), m_nrOfUsedSamples (fst k) = m_nrOfUsedSamples W))
            (run_samples [(Finite 0, Finite 0)] W) = Some (LOOPER_STATE_WAITING_FOR_THRESHOLD, True)"
    by auto
  from e5 c5 have r5: "map_option (\<lambda>k. m_nrOfUsedSamples (fst k) = m_nrOfUsedSamples W + 1)
            (run_sample (Finite 1, Finite 1) W) = Some True"
    by auto
  from c7 have r7: "map_option (\<lambda>k. (m_state (fst k), m_nrOfUsedSamples (fst k), m_storage1 (fst k) 0))
        (run ((block (Finite (- 90)) (Finite 1) [(NaN, NaN), (Finite 1, Finite 1)])
                \<lparr> activateButton := press \<rparr>)
           (Looper_new 48000 silence silence))
      = Some (LOOPER_STATE_RECORDING, 1, Finite 1)"
    by simp
  from c6 have r6: "map_option (\<lambda>k. (m_state (fst k), m_nrOfUsedSamples (fst k), m_length (m_dubs (fst k) 0)))
        (run ((block (Finite 0) (Finite 1) [(Finite 0, Finite 0)])\<lparr> activateButton := press \<rparr>)
           (Looper_new 48000 silence silence))
      = Some (LOOPER_STATE_WAITING_FOR_THRESHOLD, 0, 0)"
    by simp
  from W h4 h5 r4 r5 have rw: "map_option (\<lambda>l. m_state l = LOOPER_STATE_WAITING_FOR_THRESHOLD
       \<and> \<not> fge (spec_peak (Finite 0, Finite 0)) (m_threshold l)
       \<and> fge (spec_peak (Finite 1, Finite 1)) (m_threshold l)
       \<and> map_option (\<lambda>k. (m_state (fst k), m_nrOfUsedSamples (fst k) = m_nrOfUsedSamples l))
            (run_samples [(Finite 0, Finite 0)] l) = Some (LOOPER_STATE_WAITING_FOR_THRESHOLD, True)
       \<and> map_option (\<lambda>k. m_nrOfUsedSamples (fst k) = m_nrOfUsedSamples l + 1)
            (run_sample (Finite 1, Finite 1) l) = Some True)
     (run_blocks undo_then_start (Looper_new 48000 silence silence)) = Some True"
    by simp
  have misc: "fle (Finite (- 90)) (Finite (- 90))" "(- 90 :: real) < 0"
    "dbToFloat (Finite 0) = Finite 1" "flt (spec_peak (Finite 0, Finite 0)) (Finite 1)"
    "nan_pair (NaN, NaN)" "\<not> nan_pair (Finite 1, Finite 1)"
    using c1 by (simp_all add: fle_def pk nan_pair_def float_round_0 float_round_1)
  from h6 h7 have hh: "0 < m_storageSize (Looper_new 48000 silence silence)"
    "\<not> fge (spec_peak (Finite 0, Finite 0)) (dbToFloat (Finite 0))"
    "length ([(NaN, NaN)] @ [(Finite 1, Finite 1)]) < m_storageSize (Looper_new 48000 silence silence)"
    by simp_all
  from misc c0 rw hh r6 r7 show ?thesis by (simp only: simp_thms)
qed

text \<open>
  C8 as stated fails: with the threshold at -90 dB a first sample that is NaN on both
  channels is not recorded, and the engine keeps waiting; and the threshold of -20 dB is
  not \<open>1/10\<close> but the number of single precision next to it.
\<close>

theorem nan_pair_at_floor_counterexample:
  "map_option (\<lambda>k. (m_state (fst k), m_threshold (fst k), m_nrOfUsedSamples (fst k)))
     (run nan_at_floor (Looper_new 48000 silence silence))
   = Some (LOOPER_STATE_WAITING_FOR_THRESHOLD, Finite 0, 0)
   \<and> dbToFloat (Finite (- 20)) = Finite (13421773 / 134217728)
   \<and> (13421773 / 134217728 :: real) \<noteq> 1 / 10"
  by (simp add: engine_defs nan_at_floor_def dbToFloat_minus_20)

subsection \<open>C9: capacity of the arena\<close>

text \<open>
  C9 (the arena holds \<open>sampleRate * 360\<close> samples per channel). The constructor
  multiplies by two once more: at 48000 Hz each channel has 34560000 samples, twice the
  17280000 of 360 seconds.
\<close>

theorem storage_size_doubled:
  "m_storageSize (Looper_new (real n) mem1 mem2) = n * STORAGE_MEMORY_SECONDS * 2
   \<and> m_storageSize (Looper_new 48000 mem1 mem2) = 34560000
   \<and> 48000 * STORAGE_MEMORY_SECONDS = 17280000"
proof -
  have "real n * real STORAGE_MEMORY_SECONDS * 2 = real (n * STORAGE_MEMORY_SECONDS * 2)"
    by simp
  then have "\<lfloor>real n * real STORAGE_MEMORY_SECONDS * 2\<rfloor> = int (n * STORAGE_MEMORY_SECONDS * 2)"
    by (metis floor_of_nat)
  then show ?thesis
    by (simp add: Looper_new_def STORAGE_MEMORY_SECONDS_def)
qed

subsection \<open>C10: bounds of the arena and of the slot array\<close>

text \<open>
  C10 (every access to the arena and to the slot array is in bounds). A first take of
  one sample fixes a loop of length 1; a press of Dub and 254 samples chain overdubs
  until all 128 slots are active. Undo leaves 127 active dubs with 128 redoable. In the
  next block Activate starts a take (slot 127 is reserved, the engine waits for the
  threshold) and Redo, which only refuses in the state \<open>RECORDING\<close>, raises the count
  to 128: the first sample of that block meets the threshold, and the engine reads and
  writes \<open>m_dubs[128]\<close>, one past the end of the array.
\<close>

theorem dub_slot_out_of_range:
  "map_option (\<lambda>l. (m_state l, m_nrOfDubs l, m_maxUsedDubs l))
     (run_blocks fill_ledger (Looper_new 48000 silence silence))
   = Some (LOOPER_STATE_PLAYING, 127, 128)
   \<and> map_option (\<lambda>l. (m_state l, m_nrOfDubs l, NR_OF_DUBS, checkThreshold (Finite 1, Finite 1) l))
       (run_blocks fill_ledger (Looper_new 48000 silence silence)
          \<bind> updateParameters start_and_redo)
     = Some (LOOPER_STATE_WAITING_FOR_THRESHOLD, 128, 128, None)
   \<and> run_blocks (fill_ledger @ [start_and_redo]) (Looper_new 48000 silence silence) = None"
proof -
  from ledger_filled obtain l where
    l: "run_blocks fill_ledger (Looper_new 48000 silence silence) = Some l"
      "m_state l = LOOPER_STATE_PLAYING" "m_nrOfDubs l = 127" "m_maxUsedDubs l = 128"
      "m_nrOfUsedSamples l \<le> 255" "m_storageSize l = 34560000"
    by blast
  define l1 where "l1 = startRecording
      (l\<lparr> m_threshold := dbToFloat (Finite (- 90)), m_dryAmount := Finite 0 \<rparr>)"
  have f1: "m_state l1 = LOOPER_STATE_WAITING_FOR_THRESHOLD" "m_nrOfDubs l1 = 127"
    "m_maxUsedDubs l1 = 128" "m_threshold l1 = Finite 0"
    using l by (simp_all add: l1_def startRecording_def NR_OF_DUBS_def dbToFloat_floor)
  define l2 where "l2 = l1\<lparr> m_nrOfUsedSamples :=
      m_storageOffset (m_dubs l1 127) + m_length (m_dubs l1 127), m_nrOfDubs := 128 \<rparr>"
  have rd: "redo l1 = Some l2"
    using f1 by (simp add: redo_def NR_OF_DUBS_def l2_def Let_def)
  have u: "updateParameters start_and_redo l = Some l2"
    using l(2) rd
    by (simp add: updateParameters_def button_def block_def press_def start_and_redo_def
        activateCallback_def redoCallback_def is_recording_def l1_def[symmetric])
  have f2: "m_state l2 = LOOPER_STATE_WAITING_FOR_THRESHOLD" "m_nrOfDubs l2 = 128"
    "m_threshold l2 = Finite 0"
    using f1 by (simp_all add: l2_def)
  have c: "checkThreshold (Finite 1, Finite 1) l2 = None"
    using f2 by (simp add: checkThreshold_def NR_OF_DUBS_def)
  then have "run_sample (Finite 1, Finite 1) l2 = None" by (simp add: run_sample_def)
  with u f2(1) have r: "run start_and_redo l = None"
    by (simp add: run_def start_and_redo_def block_def)
  from l u f2 c r show ?thesis
    by (simp add: run_blocks_snoc NR_OF_DUBS_def)
qed

end
